theory Spec2Isabelle
  imports Complex_Main "HOL-Library.Char_ord" "HOL-Library.List_Lexorder"
begin

section \<open>Token-classification notebook: \<open>compute_metrics\<close>\<close>

text \<open>
  The notebook cell (tutorial \<open>docs-token-classification-python-*\<close>) defines
  \<^verbatim>\<open>
  SPECIAL_TOKEN_ID = -100
  def compute_metrics(p: EvalPrediction):
      predictions, labels = p
      predictions = np.argmax(predictions, axis=2)
      true_predictions = [
          [LABEL_MAP[pred] for (pred, lab) in zip(prediction, label) if lab != SPECIAL_TOKEN_ID]
          for prediction, label in zip(predictions, labels)]
      true_labels = [
          [LABEL_MAP[lab] for (_, lab) in zip(prediction, label) if lab != SPECIAL_TOKEN_ID]
          for prediction, label in zip(predictions, labels)]
      results = metric.compute(predictions=true_predictions, references=true_labels)
      return {"precision": results["overall_precision"], ...}
  \<close>
  \<open>np.argmax\<close> and \<open>metric.compute\<close> are library calls: both are parameters of the
  model. A dictionary lookup \<open>LABEL_MAP[k]\<close> with a missing key raises \<open>KeyError\<close>,
  which is a branch of the model.
\<close>

datatype py_error = KeyError int

definition SPECIAL_TOKEN_ID :: int where
  "SPECIAL_TOKEN_ID = - 100"

definition LABEL_MAP :: "int \<rightharpoonup> string" where
  "LABEL_MAP = map_of
     [(0, ''O''), (1, ''B-PER''), (2, ''I-PER''), (3, ''B-ORG''), (4, ''I-ORG''),
      (5, ''B-LOC''), (6, ''I-LOC''), (7, ''B-MISC''), (8, ''I-MISC'')]"

definition label_lookup :: "int \<Rightarrow> py_error + string" where
  \<comment> \<open>\<open>LABEL_MAP[k]\<close>\<close>
  "label_lookup k = (case LABEL_MAP k of None \<Rightarrow> Inl (KeyError k) | Some s \<Rightarrow> Inr s)"

fun comprehend :: "('a \<Rightarrow> py_error + 'b) \<Rightarrow> 'a list \<Rightarrow> py_error + 'b list" where
  \<comment> \<open>a list comprehension \<open>[f x for x in xs]\<close> whose body may raise: the first
      exception ends the comprehension\<close>
  "comprehend f [] = Inr []"
| "comprehend f (x # xs) =
     (case f x of
        Inl e \<Rightarrow> Inl e
      | Inr y \<Rightarrow> (case comprehend f xs of Inl e \<Rightarrow> Inl e | Inr ys \<Rightarrow> Inr (y # ys)))"

definition kept :: "int list \<Rightarrow> int list \<Rightarrow> (int \<times> int) list" where
  \<comment> \<open>\<open>(pred, lab) in zip(prediction, label) if lab != SPECIAL_TOKEN_ID\<close>\<close>
  "kept prediction label =
     filter (\<lambda>(pred, lab). lab \<noteq> SPECIAL_TOKEN_ID) (zip prediction label)"

definition true_predictions_row :: "int list \<times> int list \<Rightarrow> py_error + string list" where
  "true_predictions_row = (\<lambda>(prediction, label).
     comprehend (\<lambda>(pred, lab). label_lookup pred) (kept prediction label))"

definition true_labels_row :: "int list \<times> int list \<Rightarrow> py_error + string list" where
  "true_labels_row = (\<lambda>(prediction, label).
     comprehend (\<lambda>(_, lab). label_lookup lab) (kept prediction label))"

definition metric_arguments ::
  "int list list \<Rightarrow> int list list \<Rightarrow> py_error + (string list list \<times> string list list)" where
  \<comment> \<open>the two lists handed to \<open>metric.compute\<close>; \<open>true_predictions\<close> is built first\<close>
  "metric_arguments predictions labels =
     (case comprehend true_predictions_row (zip predictions labels) of
        Inl e \<Rightarrow> Inl e
      | Inr true_predictions \<Rightarrow>
          (case comprehend true_labels_row (zip predictions labels) of
             Inl e \<Rightarrow> Inl e
           | Inr true_labels \<Rightarrow> Inr (true_predictions, true_labels)))"

definition compute_metrics ::
  "('logits \<Rightarrow> int list list) \<Rightarrow> (string list list \<Rightarrow> string list list \<Rightarrow> 'results) \<Rightarrow>
   'logits \<times> int list list \<Rightarrow> py_error + 'results" where
  \<comment> \<open>\<open>argmax2\<close> stands for \<open>np.argmax(_, axis=2)\<close>, \<open>metric_compute\<close> for the
      seqeval metric together with the selection of its four overall scores\<close>
  "compute_metrics argmax2 metric_compute = (\<lambda>(predictions, labels).
     (case metric_arguments (argmax2 predictions) labels of
        Inl e \<Rightarrow> Inl e
      | Inr (true_predictions, true_labels) \<Rightarrow>
          Inr (metric_compute true_predictions true_labels)))"

subsection \<open>Alignment of the filtered rows\<close>

lemma comprehend_length:
  "comprehend f xs = Inr ys \<Longrightarrow> length ys = length xs"
  by (induction xs arbitrary: ys) (auto split: sum.splits)

lemma comprehend_nth:
  "comprehend f xs = Inr ys \<Longrightarrow> i < length xs \<Longrightarrow> f (xs ! i) = Inr (ys ! i)"
proof (induction xs arbitrary: ys i)
  case Nil
  then show ?case by simp
next
  case (Cons x xs)
  then show ?case
    by (cases i) (auto split: sum.splits)
qed

lemma comprehend_total:
  "(\<And>x. x \<in> set xs \<Longrightarrow> \<exists>y. f x = Inr y) \<Longrightarrow> \<exists>ys. comprehend f xs = Inr ys"
proof (induction xs)
  case Nil
  then show ?case by simp
next
  case (Cons x xs)
  then obtain y ys where "f x = Inr y" "comprehend f xs = Inr ys"
    by (metis list.set_intros(1) list.set_intros(2))
  then show ?case by simp
qed

lemma rows_same_length:
  assumes "true_predictions_row r = Inr ps" and "true_labels_row r = Inr ls"
  shows "length ps = length ls"
proof -
  obtain prediction label where r: "r = (prediction, label)"
    by (cases r)
  from assms have "length ps = length (kept prediction label)"
    and "length ls = length (kept prediction label)"
    by (auto simp: r true_predictions_row_def true_labels_row_def dest: comprehend_length)
  then show ?thesis by simp
qed

lemma metric_arguments_returns:
  assumes "\<And>prediction label pred lab.
     (prediction, label) \<in> set (zip predictions labels) \<Longrightarrow>
     (pred, lab) \<in> set (kept prediction label) \<Longrightarrow>
     pred \<in> dom LABEL_MAP \<and> lab \<in> dom LABEL_MAP"
  shows "\<exists>tp tl. metric_arguments predictions labels = Inr (tp, tl)"
proof -
  have "\<exists>ps. true_predictions_row r = Inr ps" if "r \<in> set (zip predictions labels)" for r
  proof -
    obtain prediction label where r: "r = (prediction, label)" by (cases r)
    have "\<exists>y. (\<lambda>(pred, lab). label_lookup pred) x = Inr y"
      if "x \<in> set (kept prediction label)" for x
      using assms [of prediction label "fst x" "snd x"] that \<open>r \<in> set (zip predictions labels)\<close>
      by (cases x) (auto simp: r label_lookup_def split: option.splits)
    then show ?thesis
      unfolding r true_predictions_row_def prod.case by (rule comprehend_total)
  qed
  then obtain tp where tp: "comprehend true_predictions_row (zip predictions labels) = Inr tp"
    using comprehend_total by blast
  have "\<exists>ls. true_labels_row r = Inr ls" if "r \<in> set (zip predictions labels)" for r
  proof -
    obtain prediction label where r: "r = (prediction, label)" by (cases r)
    have "\<exists>y. (\<lambda>(_, lab). label_lookup lab) x = Inr y"
      if "x \<in> set (kept prediction label)" for x
      using assms [of prediction label "fst x" "snd x"] that \<open>r \<in> set (zip predictions labels)\<close>
      by (cases x) (auto simp: r label_lookup_def split: option.splits)
    then show ?thesis
      unfolding r true_labels_row_def prod.case by (rule comprehend_total)
  qed
  then obtain tl where tl: "comprehend true_labels_row (zip predictions labels) = Inr tl"
    using comprehend_total by blast
  from tp tl show ?thesis by (simp add: metric_arguments_def)
qed

text \<open>
  C10. Whenever \<open>compute_metrics\<close> reaches \<open>metric.compute\<close>, the two arguments have the
  same number of rows and, for each row index \<open>i\<close>, \<open>true_predictions[i]\<close> and
  \<open>true_labels[i]\<close> have the same length: both comprehensions keep exactly the zip
  positions whose label differs from \<open>SPECIAL_TOKEN_ID\<close>.
\<close>

theorem compute_metrics_aligned:
  "metric_arguments predictions labels = Inr (true_predictions, true_labels) \<Longrightarrow>
   length true_predictions = length true_labels \<and>
   (\<forall>i < length true_predictions.
      length (true_predictions ! i) = length (true_labels ! i) \<and>
      length (true_labels ! i) = length (kept (predictions ! i) (labels ! i)))"
proof -
  assume ret: "metric_arguments predictions labels = Inr (true_predictions, true_labels)"
  let ?rows = "zip predictions labels"
  from ret have tp: "comprehend true_predictions_row ?rows = Inr true_predictions"
    and tl: "comprehend true_labels_row ?rows = Inr true_labels"
    by (auto simp: metric_arguments_def split: sum.splits)
  have len_tp: "length true_predictions = length ?rows"
    using tp by (rule comprehend_length)
  have len_tl: "length true_labels = length ?rows"
    using tl by (rule comprehend_length)
  have "length (true_predictions ! i) = length (true_labels ! i) \<and>
        length (true_labels ! i) = length (kept (predictions ! i) (labels ! i))"
    if "i < length true_predictions" for i
  proof -
    from that len_tp have i: "i < length ?rows" by simp
    have p: "true_predictions_row (?rows ! i) = Inr (true_predictions ! i)"
      using tp i by (rule comprehend_nth)
    have l: "true_labels_row (?rows ! i) = Inr (true_labels ! i)"
      using tl i by (rule comprehend_nth)
    from i have row: "?rows ! i = (predictions ! i, labels ! i)" by simp
    from l have "length (true_labels ! i) = length (kept (predictions ! i) (labels ! i))"
      by (auto simp: row true_labels_row_def dest: comprehend_length)
    with rows_same_length [OF p l] show ?thesis by simp
  qed
  with len_tp len_tl show ?thesis by simp
qed

theorem compute_metrics_aligned_witness:
  "metric_arguments [[3, 0, 7], [1, 2]] [[- 100, 0, 7], [1, - 100]]
     = Inr ([[''O'', ''B-MISC''], [''B-PER'']], [[''O'', ''B-MISC''], [''B-PER'']]) \<and>
   length [[''O'', ''B-MISC''], [''B-PER'']] = length [[''O'', ''B-MISC''], [''B-PER'']] \<and>
   length ([[''O'', ''B-MISC''], [''B-PER'']] ! 0) = length ([[''O'', ''B-MISC''], [''B-PER'']] ! 0) \<and>
   length ([[''O'', ''B-MISC''], [''B-PER'']] ! 0) = length (kept [3, 0, 7] [- 100, 0, 7]) \<and>
   length ([[''O'', ''B-MISC''], [''B-PER'']] ! 1) = length (kept [1, 2] [1, - 100])"
proof -
  have run: "metric_arguments [[3, 0, 7], [1, 2]] [[- 100, 0, 7], [1, - 100]]
     = Inr ([[''O'', ''B-MISC''], [''B-PER'']], [[''O'', ''B-MISC''], [''B-PER'']])"
    by (simp add: metric_arguments_def true_predictions_row_def true_labels_row_def kept_def
        label_lookup_def LABEL_MAP_def SPECIAL_TOKEN_ID_def)
  note al = compute_metrics_aligned [OF run, THEN conjunct2, rule_format]
  have "length ([[''O'', ''B-MISC''], [''B-PER'']] ! 0) = length (kept [3, 0, 7] [- 100, 0, 7])"
    using al [of 0] by (simp add: kept_def SPECIAL_TOKEN_ID_def)
  moreover have "length ([[''O'', ''B-MISC''], [''B-PER'']] ! 1) = length (kept [1, 2] [1, - 100])"
    using al [of 1] by (simp add: kept_def SPECIAL_TOKEN_ID_def)
  ultimately show ?thesis using run by blast
qed

section \<open>The SparseZoo-removal awk scripts\<close>

text \<open>
  Two awk programs rewrite Python sources line by line: one removes the SparseZoo logic
  from \<open>Recipe.create_instance\<close>, the other from the \<open>ModelRegistry\<close> in
  \<open>src/sparseml/pytorch/models/registry.py\<close>. The input of a program is the list of
  its records (lines), the output the list of the lines it prints. Each cycle of awk's
  main loop takes the next record and runs the rules in order; \<open>next\<close> ends the cycle;
  \<open>getline\<close> replaces \<open>$0\<close> by the next record without starting a new cycle, and
  leaves \<open>$0\<close> as it is at the end of the input.
\<close>

subsection \<open>Regular expressions\<close>

text \<open>
  The scripts' patterns use literal characters, \<open>.\<close> (any character), \<open>\s*\<close>
  (gawk: any run of white space) and the anchors \<open>^\<close> and \<open>$\<close>.
\<close>

datatype re_atom = Ch char | Dot | Ws_star

datatype regex = Regex bool "re_atom list" bool
  \<comment> \<open>anchored at the start, the atoms, anchored at the end\<close>

definition lit :: "string \<Rightarrow> re_atom list" where
  "lit s = map Ch s"

definition is_space :: "char \<Rightarrow> bool" where
  "is_space c = (c \<in> set [CHR '' '', CHR 0x09, CHR 0x0A, CHR 0x0B, CHR 0x0C, CHR 0x0D])"

fun match_here :: "re_atom list \<Rightarrow> bool \<Rightarrow> string \<Rightarrow> bool" where
  "match_here [] to_end s = (if to_end then s = [] else True)"
| "match_here (Ch c # p) to_end s =
     (case s of [] \<Rightarrow> False | x # xs \<Rightarrow> x = c \<and> match_here p to_end xs)"
| "match_here (Dot # p) to_end s =
     (case s of [] \<Rightarrow> False | x # xs \<Rightarrow> match_here p to_end xs)"
| "match_here (Ws_star # p) to_end s =
     (if match_here p to_end s then True
      else (case s of [] \<Rightarrow> False | x # xs \<Rightarrow> is_space x \<and> match_here (Ws_star # p) to_end xs))"

fun match_anywhere :: "re_atom list \<Rightarrow> bool \<Rightarrow> string \<Rightarrow> bool" where
  "match_anywhere p to_end [] = match_here p to_end []"
| "match_anywhere p to_end (x # xs) =
     (if match_here p to_end (x # xs) then True else match_anywhere p to_end xs)"

fun re_match :: "string \<Rightarrow> regex \<Rightarrow> bool" where
  \<comment> \<open>\<open>$0 ~ /re/\<close>\<close>
  "re_match s (Regex from_start p to_end) =
     (if from_start then match_here p to_end s else match_anywhere p to_end s)"

subsection \<open>The script for \<open>Recipe.create_instance\<close>\<close>

text \<open>
  The rules of the script, in order (the bodies of the two skipping loops are those of
  \<open>skip_until\<close> below):
  \<^verbatim>\<open>
  BEGIN { printing = 1 }
  /from sparsezoo import Model/ { next }
  /if not os.path.isfile\(path_or_modifiers\):/ {
    print
    in_conditional_block = 1
    getline
    if ($0 ~ /# not a local file/) print
    else print $0
    next
  }
  in_conditional_block {
    if (/if path_or_modifiers.startswith\("custom_zoo:"\):/) { while (getline > 0) {...}; next }
    if (/elif path_or_modifiers.startswith\("zoo:"\):/) { while (getline > 0) {...}; next }
    if (/else:  # assume it's a string/) { print; in_conditional_block = 0; next }
    if(in_conditional_block) print
    next
  }
  printing { print }
  \<close>
\<close>

definition re_import_model :: regex where
  \<comment> \<open>\<^verbatim>\<open>/from sparsezoo import Model/\<close>\<close>
  "re_import_model = Regex False (lit ''from sparsezoo import Model'') False"

definition re_isfile :: regex where
  \<comment> \<open>\<^verbatim>\<open>/if not os.path.isfile\(path_or_modifiers\):/\<close>\<close>
  "re_isfile = Regex False
     (lit ''if not os'' @ [Dot] @ lit ''path'' @ [Dot] @ lit ''isfile(path_or_modifiers):'') False"

definition re_not_local :: regex where
  \<comment> \<open>\<^verbatim>\<open>/# not a local file/\<close>\<close>
  "re_not_local = Regex False (lit ''# not a local file'') False"

definition re_path_custom_zoo :: regex where
  \<comment> \<open>\<^verbatim>\<open>/if path_or_modifiers.startswith\("custom_zoo:"\):/\<close>\<close>
  \<open>re_path_custom_zoo = Regex False
     (lit ''if path_or_modifiers'' @ [Dot] @ lit ''startswith("custom_zoo:"):'') False\<close>

definition re_path_zoo :: regex where
  \<comment> \<open>\<^verbatim>\<open>/elif path_or_modifiers.startswith\("zoo:"\):/\<close>\<close>
  \<open>re_path_zoo = Regex False
     (lit ''elif path_or_modifiers'' @ [Dot] @ lit ''startswith("zoo:"):'') False\<close>

definition re_else_string :: regex where
  \<comment> \<open>\<^verbatim>\<open>/else:  # assume it's a string/\<close>\<close>
  \<open>re_else_string = Regex False (lit ''else:  # assume it's a string'') False\<close>

record recipe_vars =
  printing :: bool
  in_conditional_block :: bool

fun skip_until :: "(string \<Rightarrow> bool) \<Rightarrow> string list \<Rightarrow> (string \<times> string list) option" where
  \<comment> \<open>\<^verbatim>\<open>while (getline > 0) { if (stop) { ...; break } }\<close>: the record that ends the
      loop and the unread input, or \<open>None\<close> when the input ends first\<close>
  "skip_until stop [] = None"
| "skip_until stop (l # ls) = (if stop l then Some (l, ls) else skip_until stop ls)"

definition recipe_cycle ::
  "recipe_vars \<Rightarrow> string \<Rightarrow> string list \<Rightarrow> string list \<times> recipe_vars \<times> string list" where
  \<comment> \<open>one cycle of the main loop on record \<open>l\<close> with \<open>ls\<close> unread: the lines printed,
      the variables and the unread input afterwards\<close>
  "recipe_cycle v l ls =
     (if re_match l re_import_model then ([], v, ls)
      else if re_match l re_isfile then
        (case ls of
           [] \<Rightarrow> ([l, l], v\<lparr>in_conditional_block := True\<rparr>, [])
         | l' # ls' \<Rightarrow>
             ([l, if re_match l' re_not_local then l' else l'],
              v\<lparr>in_conditional_block := True\<rparr>, ls'))
      else if in_conditional_block v then
        (if re_match l re_path_custom_zoo then
           (case skip_until (\<lambda>x. re_match x re_path_zoo \<or> re_match x re_else_string) ls of
              None \<Rightarrow> ([], v, [])
            | Some (t, rest) \<Rightarrow>
                ([t],
                 if re_match t re_else_string then v\<lparr>in_conditional_block := False\<rparr> else v,
                 rest))
         else if re_match l re_path_zoo then
           (case skip_until (\<lambda>x. re_match x re_else_string) ls of
              None \<Rightarrow> ([], v, [])
            | Some (t, rest) \<Rightarrow> ([t], v\<lparr>in_conditional_block := False\<rparr>, rest))
         else if re_match l re_else_string then ([l], v\<lparr>in_conditional_block := False\<rparr>, ls)
         else (if in_conditional_block v then [l] else [], v, ls))
      else if printing v then ([l], v, ls)
      else ([], v, ls))"

lemma skip_until_length:
  "skip_until stop ls = Some (t, rest) \<Longrightarrow> length rest < length ls"
  by (induction ls) (auto split: if_splits)

lemma recipe_cycle_length:
  "recipe_cycle v l ls = (out, v', rest) \<Longrightarrow> length rest \<le> length ls"
  by (auto simp: recipe_cycle_def split: if_splits list.splits option.splits
      dest: skip_until_length)

function recipe_main :: "recipe_vars \<Rightarrow> string list \<Rightarrow> string list" where
  "recipe_main v [] = []"
| "recipe_main v (l # ls) =
     (case recipe_cycle v l ls of (out, v', rest) \<Rightarrow> out @ recipe_main v' rest)"
  by pat_completeness auto
termination
  by (relation "measure (\<lambda>(v, ls). length ls)")
    (auto dest: recipe_cycle_length [OF sym])

definition recipe_awk :: "string list \<Rightarrow> string list" where
  \<comment> \<open>\<^verbatim>\<open>BEGIN { printing = 1 }\<close>; a variable never assigned is false\<close>
  "recipe_awk input = recipe_main \<lparr>printing = True, in_conditional_block = False\<rparr> input"

subsection \<open>The script for the \<open>ModelRegistry\<close>\<close>

text \<open>
  The rules of the script, in order (actions abridged):
  \<^verbatim>\<open>
  /from sparsezoo import Model, model_args_to_stub/ { next }
  in_create_method = 0
  in_create_zoo_model_method = 0
  in_registered_wrapper_wrapper_func = 0
  /def create\(/ { print; in_create_method = 1; next }
  /^    @staticmethod/ || /^class / { if (in_create_method) { in_create_method = 0 } }
  in_create_method { ...; next }
  /def create_zoo_model\(/ { in_create_zoo_model_method = 1; next }
  in_create_zoo_model_method { if (...) { in_create_zoo_model_method = 0 } else { next } }
  /def wrapper\(/ { print; while (getline > 0 && (...)) {...}
                    in_registered_wrapper_wrapper_func = 1 }
  in_registered_wrapper_wrapper_func { ...; next }
  { print }
  \<close>
\<close>

definition re_import_registry :: regex where
  \<comment> \<open>\<^verbatim>\<open>/from sparsezoo import Model, model_args_to_stub/\<close>\<close>
  "re_import_registry = Regex False (lit ''from sparsezoo import Model, model_args_to_stub'') False"

definition re_def_create :: regex where
  \<comment> \<open>\<^verbatim>\<open>/def create\(/\<close>\<close>
  "re_def_create = Regex False (lit ''def create('') False"

definition re_staticmethod :: regex where
  \<comment> \<open>\<^verbatim>\<open>/^    @staticmethod/\<close>\<close>
  "re_staticmethod = Regex True (lit ''    @staticmethod'') False"

definition re_class :: regex where
  \<comment> \<open>\<^verbatim>\<open>/^class /\<close>\<close>
  "re_class = Regex True (lit ''class '') False"

definition re_pretrained_custom_zoo :: regex where
  \<comment> \<open>\<^verbatim>\<open>/if pretrained_path.startswith\("custom_zoo:"\):/\<close>\<close>
  \<open>re_pretrained_custom_zoo = Regex False
     (lit ''if pretrained_path'' @ [Dot] @ lit ''startswith("custom_zoo:"):'') False\<close>

definition re_pretrained_zoo :: regex where
  \<comment> \<open>\<^verbatim>\<open>/elif pretrained_path.startswith\("zoo:"\):/\<close>\<close>
  \<open>re_pretrained_zoo = Regex False
     (lit ''elif pretrained_path'' @ [Dot] @ lit ''startswith("zoo:"):'') False\<close>

definition re_checkpoint :: regex where
  \<comment> \<open>\<^verbatim>\<open>/_checkpoint = torch.load\(pretrained_path\)/\<close>\<close>
  "re_checkpoint = Regex False
     (lit ''_checkpoint = torch'' @ [Dot] @ lit ''load(pretrained_path)'') False"

definition re_else :: regex where
  \<comment> \<open>\<^verbatim>\<open>/else:/\<close>\<close>
  "re_else = Regex False (lit ''else:'') False"

definition re_def_create_zoo_model :: regex where
  \<comment> \<open>\<^verbatim>\<open>/def create_zoo_model\(/\<close>\<close>
  "re_def_create_zoo_model = Regex False (lit ''def create_zoo_model('') False"

definition re_def4 :: regex where
  \<comment> \<open>\<^verbatim>\<open>/^    def /\<close>\<close>
  "re_def4 = Regex True (lit ''    def '') False"

definition re_indent8 :: regex where
  \<comment> \<open>\<^verbatim>\<open>/^        /\<close>\<close>
  "re_indent8 = Regex True (lit ''        '') False"

definition re_blank :: regex where
  \<comment> \<open>\<^verbatim>\<open>/^\s*$/\<close>\<close>
  "re_blank = Regex True [Ws_star] True"

definition re_def_wrapper :: regex where
  \<comment> \<open>\<^verbatim>\<open>/def wrapper\(/\<close>\<close>
  "re_def_wrapper = Regex False (lit ''def wrapper('') False"

definition re_doc12 :: regex where
  \<comment> \<open>\<^verbatim>\<open>/^            "/\<close>\<close>
  \<open>re_doc12 = Regex True (lit ''            "'') False\<close>

definition re_doc16 :: regex where
  \<comment> \<open>\<^verbatim>\<open>/^                "/\<close>\<close>
  \<open>re_doc16 = Regex True (lit ''                "'') False\<close>

definition re_doc_path :: regex where
  \<comment> \<open>\<^verbatim>\<open>/A path to the pretrained weights to load/\<close>\<close>
  "re_doc_path = Regex False (lit ''A path to the pretrained weights to load'') False"

definition re_doc_stub :: regex where
  \<comment> \<open>\<^verbatim>\<open>/a SparseZoo stub path preceded by 'zoo:'/\<close>\<close>
  \<open>re_doc_stub = Regex False
     (lit (''a SparseZoo stub path preceded by 'zoo:'' @ [CHR 0x27])) False\<close>

definition re_doc_recipe_type :: regex where
  \<comment> \<open>\<^verbatim>\<open>/If given a recipe type, the base/\<close>\<close>
  "re_doc_recipe_type = Regex False (lit ''If given a recipe type, the base'') False"

definition re_doc_pretrained :: regex where
  \<comment> \<open>\<^verbatim>\<open>/True to load the default pretrained weights/\<close>\<close>
  "re_doc_pretrained = Regex False (lit ''True to load the default pretrained weights'') False"

definition re_return_wrapper8 :: regex where
  \<comment> \<open>\<^verbatim>\<open>/^        return wrapper/\<close>\<close>
  "re_return_wrapper8 = Regex True (lit ''        return wrapper'') False"

definition re_return_wrapper :: regex where
  \<comment> \<open>\<^verbatim>\<open>/^\s*return wrapper/\<close>\<close>
  "re_return_wrapper = Regex True (Ws_star # lit ''return wrapper'') False"

definition re_zoo_model_call :: regex where
  \<comment> \<open>\<^verbatim>\<open>/\s*zoo_model = ModelRegistry.create_zoo_model\(/\<close>\<close>
  "re_zoo_model_call = Regex False
     (Ws_star # lit ''zoo_model = ModelRegistry'' @ [Dot] @ lit ''create_zoo_model('') False"

definition re_except :: regex where
  \<comment> \<open>\<^verbatim>\<open>/except Exception:/\<close>\<close>
  "re_except = Regex False (lit ''except Exception:'') False"

definition re_return_model :: regex where
  \<comment> \<open>\<^verbatim>\<open>/return model/\<close>\<close>
  "re_return_model = Regex False (lit ''return model'') False"

definition re_download :: regex where
  \<comment> \<open>\<^verbatim>\<open>/\s*path = download_framework_model_by_recipe_type\(zoo_model\)/\<close>\<close>
  "re_download = Regex False
     (Ws_star # lit ''path = download_framework_model_by_recipe_type(zoo_model)'') False"

definition pretrained_path_doc :: "string list" where
  \<comment> \<open>the three lines printed for the \<open>pretrained_path\<close> parameter\<close>
  \<open>pretrained_path_doc =
     [''            :param pretrained_path: A path to the pretrained weights to load,'',
      ''                if provided will override the pretrained param.'',
      ''                NOTE: SparseZoo stub paths (e.g. 'zoo:...') are no longer supported.'']\<close>

definition pretrained_doc :: "string list" where
  \<comment> \<open>the four lines printed for the \<open>pretrained\<close> parameter\<close>
  "pretrained_doc =
     [''            :param pretrained: True to load the default pretrained weights (if available locally via pretrained_path),'',
      ''                a string to load a specific pretrained weight (if available locally via pretrained_path),'',
      ''                or False to not load any pretrained weights.'',
      ''                NOTE: Automatic download from SparseZoo is no longer supported.'']"

record registry_vars =
  in_create_method :: bool
  in_create_zoo_model_method :: bool
  in_registered_wrapper_wrapper_func :: bool

definition create_rule ::
  "registry_vars \<Rightarrow> string \<Rightarrow> string list \<Rightarrow> string list \<times> registry_vars \<times> string list" where
  \<comment> \<open>the action of the rule guarded by \<open>in_create_method\<close>; every branch ends in \<open>next\<close>\<close>
  "create_rule v l ls =
     (if re_match l re_pretrained_custom_zoo then
        (case skip_until (\<lambda>x. re_match x re_pretrained_zoo \<or> re_match x re_checkpoint) ls of
           None \<Rightarrow> ([], v, [])
         | Some (t, rest) \<Rightarrow> ([t], v, rest))
      else if re_match l re_pretrained_zoo then
        (case skip_until (\<lambda>x. re_match x re_checkpoint \<or> re_match x re_else) ls of
           None \<Rightarrow> ([], v, [])
         | Some (t, rest) \<Rightarrow> ([t], v, rest))
      else ([l], v, ls))"

definition end_of_create_zoo_model :: "string \<Rightarrow> bool" where
  \<comment> \<open>\<^verbatim>\<open>/^    @staticmethod/ || /^    def / || /^class / ||
       !match($0, /^        /) && !match($0, /^\s*$/)\<close>\<close>
  "end_of_create_zoo_model l =
     (re_match l re_staticmethod \<or> re_match l re_def4 \<or> re_match l re_class \<or>
      (\<not> re_match l re_indent8 \<and> \<not> re_match l re_blank))"

definition docstring_line :: "string \<Rightarrow> string list" where
  \<comment> \<open>the body of the docstring loop: what it prints for the record\<close>
  "docstring_line l =
     (if re_match l re_doc_path then pretrained_path_doc
      else if re_match l re_doc_stub then []
      else if re_match l re_doc_recipe_type then []
      else if re_match l re_doc_pretrained then pretrained_doc
      else [l])"

fun docstring_loop :: "string \<Rightarrow> string list \<Rightarrow> string list \<times> string \<times> string list" where
  \<comment> \<open>\<^verbatim>\<open>while (getline > 0 && ($0 ~ /^            "/ || $0 ~ /^                "/ || $0 ~ /^\s*$/))\<close>:
      the lines printed, \<open>$0\<close> after the loop and the unread input\<close>
  "docstring_loop cur [] = ([], cur, [])"
| "docstring_loop cur (l # ls) =
     (if re_match l re_doc12 \<or> re_match l re_doc16 \<or> re_match l re_blank then
        (case docstring_loop l ls of (out, cur', rest) \<Rightarrow> (docstring_line l @ out, cur', rest))
      else ([], l, ls))"

fun zoo_model_loop :: "string list \<Rightarrow> string list \<times> string list" where
  \<comment> \<open>the loop that skips the \<open>try\<close> block using \<open>zoo_model\<close>: the lines printed and
      the unread input; after \<open>except Exception:\<close> two more records are read\<close>
  "zoo_model_loop [] = ([], [])"
| "zoo_model_loop (l # ls) =
     (if re_match l re_except then ([], drop 2 ls)
      else if re_match l re_return_model then ([l], ls)
      else zoo_model_loop ls)"

definition wrapper_rule ::
  "registry_vars \<Rightarrow> string \<Rightarrow> string list \<Rightarrow> string list \<times> registry_vars \<times> string list" where
  \<comment> \<open>the action of the rule guarded by \<open>in_registered_wrapper_wrapper_func\<close>; every
      branch ends in \<open>next\<close>\<close>
  "wrapper_rule v l ls =
     (if re_match l re_return_wrapper8 \<or> re_match l re_return_wrapper then
        ([l], v\<lparr>in_registered_wrapper_wrapper_func := False\<rparr>, ls)
      else if re_match l re_zoo_model_call then
        (case zoo_model_loop ls of (out, rest) \<Rightarrow> (out, v, rest))
      else if re_match l re_download then ([], v, ls)
      else ([l], v, ls))"

definition registry_cycle ::
  "registry_vars \<Rightarrow> string \<Rightarrow> string list \<Rightarrow> string list \<times> registry_vars \<times> string list" where
  \<comment> \<open>one cycle of the main loop. The three lines \<^verbatim>\<open>in_create_method = 0\<close>,
      \<^verbatim>\<open>in_create_zoo_model_method = 0\<close>, \<^verbatim>\<open>in_registered_wrapper_wrapper_func = 0\<close>
      stand at the top level of the program, so each is a pattern without an action:
      it is evaluated for every record that reaches it, assigns 0, and its value 0
      selects no record for printing.\<close>
  "registry_cycle v0 l ls =
     (if re_match l re_import_registry then ([], v0, ls)
      else
        let v1 = v0\<lparr>in_create_method := False\<rparr>;
            v2 = v1\<lparr>in_create_zoo_model_method := False\<rparr>;
            v3 = v2\<lparr>in_registered_wrapper_wrapper_func := False\<rparr>
        in
        if re_match l re_def_create then ([l], v3\<lparr>in_create_method := True\<rparr>, ls)
        else
          let v4 = (if re_match l re_staticmethod \<or> re_match l re_class
                    then (if in_create_method v3 then v3\<lparr>in_create_method := False\<rparr> else v3)
                    else v3)
          in
          if in_create_method v4 then create_rule v4 l ls
          else if re_match l re_def_create_zoo_model then
            ([], v4\<lparr>in_create_zoo_model_method := True\<rparr>, ls)
          else if in_create_zoo_model_method v4 \<and> \<not> end_of_create_zoo_model l then ([], v4, ls)
          else
            let v5 = (if in_create_zoo_model_method v4
                      then v4\<lparr>in_create_zoo_model_method := False\<rparr> else v4)
            in
            if re_match l re_def_wrapper then
              (case docstring_loop l ls of (out, cur, rest) \<Rightarrow>
                 (case wrapper_rule (v5\<lparr>in_registered_wrapper_wrapper_func := True\<rparr>) cur rest of
                    (out', v6, rest') \<Rightarrow> (l # out @ out', v6, rest')))
            else if in_registered_wrapper_wrapper_func v5 then wrapper_rule v5 l ls
            else ([l], v5, ls))"

lemma docstring_loop_length:
  "docstring_loop cur ls = (out, cur', rest) \<Longrightarrow> length rest \<le> length ls"
proof (induction cur ls arbitrary: out cur' rest rule: docstring_loop.induct)
  case (1 cur)
  then show ?case by simp
next
  case (2 cur l ls)
  show ?case
  proof (cases "re_match l re_doc12 \<or> re_match l re_doc16 \<or> re_match l re_blank")
    case True
    obtain o1 c1 r1 where rec: "docstring_loop l ls = (o1, c1, r1)"
      by (cases "docstring_loop l ls")
    from "2.IH" [OF True rec] have "length r1 \<le> length ls" .
    moreover from "2.prems" True rec have "rest = r1" by simp
    ultimately show ?thesis by simp
  next
    case False
    with "2.prems" show ?thesis by auto
  qed
qed

lemma zoo_model_loop_length:
  "zoo_model_loop ls = (out, rest) \<Longrightarrow> length rest \<le> length ls"
  by (induction ls arbitrary: out rest) (auto split: if_splits)

lemma create_rule_length:
  "create_rule v l ls = (out, v', rest) \<Longrightarrow> length rest \<le> length ls"
  by (auto simp: create_rule_def split: if_splits option.splits dest: skip_until_length)

lemma wrapper_rule_length:
  "wrapper_rule v l ls = (out, v', rest) \<Longrightarrow> length rest \<le> length ls"
  by (auto simp: wrapper_rule_def split: if_splits prod.splits dest: zoo_model_loop_length)

lemma registry_cycle_length:
  "registry_cycle v l ls = (out, v', rest) \<Longrightarrow> length rest \<le> length ls"
  unfolding registry_cycle_def Let_def
  by (auto split: if_splits prod.splits
      dest!: create_rule_length wrapper_rule_length docstring_loop_length)

function registry_main :: "registry_vars \<Rightarrow> string list \<Rightarrow> string list" where
  "registry_main v [] = []"
| "registry_main v (l # ls) =
     (case registry_cycle v l ls of (out, v', rest) \<Rightarrow> out @ registry_main v' rest)"
  by pat_completeness auto
termination
  by (relation "measure (\<lambda>(v, ls). length ls)")
    (auto dest: registry_cycle_length [OF sym])

definition registry_awk :: "string list \<Rightarrow> string list" where
  \<comment> \<open>a variable never assigned is false\<close>
  "registry_awk input =
     registry_main \<lparr>in_create_method = False, in_create_zoo_model_method = False,
       in_registered_wrapper_wrapper_func = False\<rparr> input"

subsection \<open>What the scripts print\<close>

lemma skip_until_set:
  "skip_until stop ls = Some (t, rest) \<Longrightarrow> t \<in> set ls \<and> set rest \<subseteq> set ls"
  by (induction ls) (auto split: if_splits)

lemma recipe_cycle_set:
  assumes "recipe_cycle v l ls = (out, v', rest)"
  shows "set out \<subseteq> set (l # ls)" and "set rest \<subseteq> set ls"
  using assms
  by (auto simp: recipe_cycle_def split: if_splits list.splits option.splits
      dest: skip_until_set)

lemma recipe_main_set: "set (recipe_main v input) \<subseteq> set input"
proof (induction v input rule: recipe_main.induct)
  case (1 v)
  show ?case by simp
next
  case (2 v l ls)
  obtain out v' rest where c: "recipe_cycle v l ls = (out, v', rest)"
    by (cases "recipe_cycle v l ls")
  from "2.IH" [OF c [symmetric] refl] have "set (recipe_main v' rest) \<subseteq> set rest" .
  with recipe_cycle_set [OF c] show ?case
    by (auto simp: c)
qed

lemma recipe_cycle_plain:
  assumes "\<not> re_match l re_isfile" and "\<not> in_conditional_block v"
  shows "recipe_cycle v l ls =
    (if re_match l re_import_model \<or> \<not> printing v then [] else [l], v, ls)"
  using assms by (simp add: recipe_cycle_def)

lemma recipe_main_import:
  assumes "\<not> in_conditional_block v"
    and "x \<in> set (recipe_main v input)" and "re_match x re_import_model"
  shows "x \<in> set (tl (dropWhile (\<lambda>l. \<not> re_match l re_isfile) input))"
  using assms
proof (induction input)
  case Nil
  then show ?case by simp
next
  case (Cons l ls)
  show ?case
  proof (cases "re_match l re_isfile")
    case True
    have "x \<in> set ls"
    proof (cases "re_match l re_import_model")
      case True
      with Cons.prems(2) have "x \<in> set (recipe_main v ls)"
        by (simp add: recipe_cycle_def)
      with recipe_main_set [of v ls] show ?thesis by auto
    next
      case False
      with Cons.prems(3) have "x \<noteq> l" by auto
      with Cons.prems(2) recipe_main_set [of v "l # ls"] show ?thesis by auto
    qed
    with True show ?thesis by simp
  next
    case False
    note plain = recipe_cycle_plain [OF False Cons.prems(1), of ls]
    from Cons.prems(2,3) have "x \<in> set (recipe_main v ls)"
      by (auto simp: plain split: if_splits)
    from Cons.IH [OF Cons.prems(1) this Cons.prems(3)] False show ?thesis by simp
  qed
qed

lemma recipe_main_no_lookahead:
  assumes "\<not> in_conditional_block v" and "printing v"
    and "\<And>l. l \<in> set input \<Longrightarrow> \<not> re_match l re_isfile"
  shows "recipe_main v input = filter (\<lambda>l. \<not> re_match l re_import_model) input"
  using assms(3)
proof (induction input)
  case Nil
  show ?case by simp
next
  case (Cons l ls)
  from Cons.prems have "\<not> re_match l re_isfile" by simp
  note plain = recipe_cycle_plain [OF this assms(1), of ls]
  from Cons.prems have "recipe_main v ls = filter (\<lambda>l. \<not> re_match l re_import_model) ls"
    by (intro Cons.IH) simp
  with assms(2) show ?case by (simp add: plain)
qed

text \<open>Without a line that starts the lookahead, the script for
  \<open>Recipe.create_instance\<close> is the filter that removes the import lines.\<close>

lemma recipe_awk_no_lookahead:
  assumes "\<And>l. l \<in> set input \<Longrightarrow> \<not> re_match l re_isfile"
  shows "recipe_awk input = filter (\<lambda>l. \<not> re_match l re_import_model) input"
  unfolding recipe_awk_def using assms by (intro recipe_main_no_lookahead) simp_all

definition replacement_lines :: "string list" where
  \<comment> \<open>the string constants of the registry script's \<open>print\<close> statements\<close>
  "replacement_lines = pretrained_path_doc @ pretrained_doc"

lemma docstring_line_set: "set (docstring_line l) \<subseteq> insert l (set replacement_lines)"
  by (auto simp: docstring_line_def replacement_lines_def)

lemma docstring_loop_set:
  "docstring_loop cur ls = (out, cur', rest) \<Longrightarrow>
   set out \<subseteq> set ls \<union> set replacement_lines \<and> cur' \<in> set (cur # ls) \<and> set rest \<subseteq> set ls"
proof (induction cur ls arbitrary: out cur' rest rule: docstring_loop.induct)
  case (1 cur)
  then show ?case by simp
next
  case (2 cur l ls)
  show ?case
  proof (cases "re_match l re_doc12 \<or> re_match l re_doc16 \<or> re_match l re_blank")
    case True
    obtain o1 c1 r1 where rec: "docstring_loop l ls = (o1, c1, r1)"
      by (cases "docstring_loop l ls")
    note ih = "2.IH" [OF True rec]
    from "2.prems" True rec have "out = docstring_line l @ o1" "cur' = c1" "rest = r1"
      by simp_all
    with ih docstring_line_set [of l] show ?thesis by auto
  next
    case False
    with "2.prems" show ?thesis by auto
  qed
qed

lemma zoo_model_loop_set:
  "zoo_model_loop ls = (out, rest) \<Longrightarrow> set out \<subseteq> set ls \<and> set rest \<subseteq> set ls"
proof (induction ls arbitrary: out rest)
  case Nil
  then show ?case by simp
next
  case (Cons l ls)
  then show ?case
    by (auto split: if_splits dest: in_set_dropD)
qed

lemma wrapper_rule_set:
  "wrapper_rule v l ls = (out, v', rest) \<Longrightarrow> set out \<subseteq> set (l # ls) \<and> set rest \<subseteq> set ls"
  by (auto simp: wrapper_rule_def split: if_splits prod.splits dest: zoo_model_loop_set)

lemma registry_cycle_set:
  assumes "registry_cycle v l ls = (out, v', rest)"
  shows "set out \<subseteq> set (l # ls) \<union> set replacement_lines \<and> set rest \<subseteq> set ls"
proof (cases "re_match l re_def_wrapper \<and> \<not> re_match l re_import_registry \<and>
    \<not> re_match l re_def_create \<and> \<not> re_match l re_def_create_zoo_model")
  case True
  obtain o1 c1 r1 where d: "docstring_loop l ls = (o1, c1, r1)"
    by (cases "docstring_loop l ls")
  obtain o2 v2 r2 where w: "wrapper_rule
      (v\<lparr>in_create_method := False, in_create_zoo_model_method := False,
         in_registered_wrapper_wrapper_func := True\<rparr>) c1 r1 = (o2, v2, r2)"
    by (cases "wrapper_rule
      (v\<lparr>in_create_method := False, in_create_zoo_model_method := False,
         in_registered_wrapper_wrapper_func := True\<rparr>) c1 r1")
  from assms True d w have "out = l # o1 @ o2" "rest = r2"
    by (auto simp: registry_cycle_def Let_def split: if_splits)
  with docstring_loop_set [OF d] wrapper_rule_set [OF w] show ?thesis
    by auto
next
  case False
  with assms show ?thesis
    by (auto simp: registry_cycle_def Let_def split: if_splits)
qed

lemma registry_main_set: "set (registry_main v input) \<subseteq> set input \<union> set replacement_lines"
proof (induction v input rule: registry_main.induct)
  case (1 v)
  show ?case by simp
next
  case (2 v l ls)
  obtain out v' rest where c: "registry_cycle v l ls = (out, v', rest)"
    by (cases "registry_cycle v l ls")
  from "2.IH" [OF c [symmetric] refl]
  have "set (registry_main v' rest) \<subseteq> set rest \<union> set replacement_lines" .
  with registry_cycle_set [OF c] show ?case
    by (auto simp: c)
qed

lemma registry_cycle_plain:
  assumes "\<not> re_match l re_def_wrapper"
  shows "\<exists>v'. registry_cycle v l ls =
    (if re_match l re_import_registry then []
     else if re_match l re_def_create then [l]
     else if re_match l re_def_create_zoo_model then []
     else [l], v', ls)"
  using assms by (simp add: registry_cycle_def Let_def split: if_splits)

lemma registry_main_no_lookahead:
  assumes "\<And>l. l \<in> set input \<Longrightarrow> \<not> re_match l re_def_wrapper"
  shows "registry_main v input =
    filter (\<lambda>l. \<not> re_match l re_import_registry \<and>
                (re_match l re_def_create \<or> \<not> re_match l re_def_create_zoo_model)) input"
  using assms
proof (induction input arbitrary: v)
  case Nil
  show ?case by simp
next
  case (Cons l ls)
  from Cons.prems have "\<not> re_match l re_def_wrapper" by simp
  from registry_cycle_plain [OF this, of v ls] obtain v' where
    plain: "registry_cycle v l ls =
      (if re_match l re_import_registry then []
       else if re_match l re_def_create then [l]
       else if re_match l re_def_create_zoo_model then []
       else [l], v', ls)" ..
  from Cons.prems have "registry_main v' ls =
      filter (\<lambda>l. \<not> re_match l re_import_registry \<and>
                  (re_match l re_def_create \<or> \<not> re_match l re_def_create_zoo_model)) ls"
    by (intro Cons.IH) simp
  then show ?case by (simp add: plain)
qed

text \<open>Without a \<open>def wrapper(\<close> line the registry script only removes lines: the
  import lines and the \<open>def create_zoo_model(\<close> lines. (Its flags are reset by the
  three top-level assignments before any rule reads them, so of the rules they guard
  only the one entered in the cycle of a \<open>def wrapper(\<close> line ever runs.)\<close>

lemma registry_awk_no_lookahead:
  assumes "\<And>l. l \<in> set input \<Longrightarrow> \<not> re_match l re_def_wrapper"
  shows "registry_awk input =
    filter (\<lambda>l. \<not> re_match l re_import_registry \<and>
                (re_match l re_def_create \<or> \<not> re_match l re_def_create_zoo_model)) input"
  unfolding registry_awk_def using assms by (rule registry_main_no_lookahead)

lemma replacement_lines_no_import:
  "s \<in> set replacement_lines \<Longrightarrow> \<not> re_match s re_import_registry"
proof -
  have "list_all (\<lambda>s. \<not> re_match s re_import_registry) replacement_lines"
    by code_simp
  then show "s \<in> set replacement_lines \<Longrightarrow> \<not> re_match s re_import_registry"
    by (simp add: list_all_iff)
qed

lemma registry_main_import:
  assumes "x \<in> set (registry_main v input)" and "re_match x re_import_registry"
  shows "x \<in> set (tl (dropWhile (\<lambda>l. \<not> re_match l re_def_wrapper) input))"
  using assms
proof (induction input arbitrary: v)
  case Nil
  then show ?case by simp
next
  case (Cons l ls)
  from Cons.prems(2) have fresh: "x \<notin> set replacement_lines"
    using replacement_lines_no_import by blast
  show ?case
  proof (cases "re_match l re_def_wrapper")
    case True
    have "x \<in> set ls"
    proof (cases "re_match l re_import_registry")
      case True
      with Cons.prems(1) have "x \<in> set (registry_main v ls)"
        by (simp add: registry_cycle_def)
      with registry_main_set [of v ls] fresh show ?thesis by auto
    next
      case False
      with Cons.prems(2) have "x \<noteq> l" by auto
      with Cons.prems(1) registry_main_set [of v "l # ls"] fresh show ?thesis by auto
    qed
    with True show ?thesis by simp
  next
    case False
    from registry_cycle_plain [OF False, of v ls] obtain v' where
      plain: "registry_cycle v l ls =
        (if re_match l re_import_registry then []
         else if re_match l re_def_create then [l]
         else if re_match l re_def_create_zoo_model then []
         else [l], v', ls)" ..
    from Cons.prems have "x \<in> set (registry_main v' ls)"
      by (auto simp: plain split: if_splits)
    from Cons.IH [OF this Cons.prems(2)] False show ?thesis by simp
  qed
qed

subsection \<open>Which printed lines can be imports\<close>

text \<open>
  A line is \<^emph>\<open>read ahead\<close> in an input when it follows a line satisfying \<open>trigger\<close>
  with only lines satisfying \<open>skipped\<close> in between: these are the records a
  \<open>getline\<close> loop started by the trigger line can reach.
\<close>

fun reached :: "(string \<Rightarrow> bool) \<Rightarrow> string list \<Rightarrow> string \<Rightarrow> bool" where
  "reached skipped [] x = False"
| "reached skipped (m # ls) x = (if m = x then True else skipped m \<and> reached skipped ls x)"

fun read_ahead :: "(string \<Rightarrow> bool) \<Rightarrow> (string \<Rightarrow> bool) \<Rightarrow> string list \<Rightarrow> string \<Rightarrow> bool" where
  "read_ahead trigger skipped [] x = False"
| "read_ahead trigger skipped (l # ls) x =
     (if trigger l \<and> reached skipped ls x then True else read_ahead trigger skipped ls x)"

definition recipe_lookahead :: "string \<Rightarrow> bool" where
  \<comment> \<open>the records on which the main loop runs the rule that calls \<open>getline\<close> once\<close>
  "recipe_lookahead l = (re_match l re_isfile \<and> \<not> re_match l re_import_model)"

definition custom_zoo_stop :: "string \<Rightarrow> bool" where
  \<comment> \<open>what ends the loop that skips the \<open>custom_zoo\<close> block of \<open>create_instance\<close>\<close>
  "custom_zoo_stop l = (re_match l re_path_zoo \<or> re_match l re_else_string)"

definition zoo_stop :: "string \<Rightarrow> bool" where
  \<comment> \<open>what ends the loop that skips the \<open>zoo\<close> block of \<open>create_instance\<close>\<close>
  "zoo_stop l = re_match l re_else_string"

definition custom_zoo_start :: "string \<Rightarrow> bool" where
  \<comment> \<open>the records on which the main loop can start the first skipping loop\<close>
  "custom_zoo_start l =
     (re_match l re_path_custom_zoo \<and> \<not> re_match l re_import_model \<and> \<not> re_match l re_isfile)"

definition zoo_start :: "string \<Rightarrow> bool" where
  \<comment> \<open>the records on which the main loop can start the second skipping loop\<close>
  "zoo_start l =
     (re_match l re_path_zoo \<and> \<not> re_match l re_path_custom_zoo \<and>
      \<not> re_match l re_import_model \<and> \<not> re_match l re_isfile)"

definition registry_lookahead :: "string \<Rightarrow> bool" where
  \<comment> \<open>the records on which the main loop reaches the \<open>def wrapper(\<close> rule\<close>
  "registry_lookahead l =
     (re_match l re_def_wrapper \<and> \<not> re_match l re_import_registry \<and>
      \<not> re_match l re_def_create \<and> \<not> re_match l re_def_create_zoo_model)"

definition docstring_record :: "string \<Rightarrow> bool" where
  \<comment> \<open>the condition under which the docstring loop goes on\<close>
  "docstring_record l =
     (re_match l re_doc12 \<or> re_match l re_doc16 \<or> re_match l re_blank)"

definition zoo_model_record :: "string \<Rightarrow> bool" where
  \<comment> \<open>the records between a \<open>def wrapper(\<close> line and the line that ends the loop
      skipping the \<open>zoo_model\<close> block: the docstring, the call, and what that loop skips\<close>
  "zoo_model_record l =
     (docstring_record l \<or> re_match l re_zoo_model_call \<or>
      (\<not> re_match l re_except \<and> \<not> re_match l re_return_model))"

lemma reached_mono:
  "(\<And>m. p m \<Longrightarrow> q m) \<Longrightarrow> reached p ls x \<Longrightarrow> reached q ls x"
  by (induction ls) (auto split: if_splits)

lemma reached_prefix:
  "(\<And>d. d \<in> set ds \<Longrightarrow> p d) \<Longrightarrow> reached p rest x \<Longrightarrow> reached p (ds @ rest) x"
  by (induction ds) auto

lemma reached_in_prefix:
  "(\<And>d. d \<in> set ds \<Longrightarrow> p d) \<Longrightarrow> x \<in> set ds \<Longrightarrow> reached p (ds @ rest) x"
  by (induction ds) auto

lemma read_ahead_append:
  "read_ahead trigger skipped rest x \<Longrightarrow> read_ahead trigger skipped (mid @ rest) x"
  by (induction mid) auto

lemma skip_until_shape:
  "skip_until stop ls = Some (t, rest) \<Longrightarrow>
   stop t \<and> reached (\<lambda>m. \<not> stop m) ls t \<and> (\<exists>mid. ls = mid @ rest)"
proof (induction ls)
  case Nil
  then show ?case by simp
next
  case (Cons l ls)
  show ?case
  proof (cases "stop l")
    case True
    with Cons.prems have "t = l" "rest = ls" by simp_all
    with True have "l # ls = [l] @ rest" by simp
    with True \<open>t = l\<close> show ?thesis by (metis reached.simps(2))
  next
    case False
    with Cons.prems have "skip_until stop ls = Some (t, rest)" by simp
    from Cons.IH [OF this] obtain mid where t: "stop t" "reached (\<lambda>m. \<not> stop m) ls t"
      and "ls = mid @ rest" by blast
    then have "l # ls = (l # mid) @ rest" by simp
    moreover from t False have "reached (\<lambda>m. \<not> stop m) (l # ls) t" by simp
    ultimately show ?thesis using t by blast
  qed
qed

lemma recipe_cycle_suffix:
  assumes "recipe_cycle v l ls = (out, v', rest)"
  shows "\<exists>mid. ls = mid @ rest"
proof -
  have same: "\<exists>mid. ls = mid @ ls" by simp
  have last: "\<exists>mid. ls = mid @ []" by simp
  have tail: "\<exists>mid. l' # ls' = mid @ ls'" for l' ls' by (rule exI [of _ "[l']"]) simp
  from assms same last tail show ?thesis
    by (auto simp: recipe_cycle_def split: if_splits list.splits option.splits
        dest!: skip_until_shape)
qed

lemma recipe_cycle_import:
  assumes "recipe_cycle v l ls = (out, v', rest)"
    and "x \<in> set out" and "re_match x re_import_model"
  shows "(recipe_lookahead l \<and> reached (\<lambda>m. False) ls x) \<or>
    (custom_zoo_start l \<and> reached (\<lambda>m. \<not> custom_zoo_stop m) ls x \<and> custom_zoo_stop x) \<or>
    (zoo_start l \<and> reached (\<lambda>m. \<not> zoo_stop m) ls x \<and> zoo_stop x)"
proof (cases "re_match l re_import_model")
  case True
  with assms show ?thesis by (simp add: recipe_cycle_def)
next
  case no_import: False
  show ?thesis
  proof (cases "re_match l re_isfile")
    case True
    with no_import assms have "reached (\<lambda>m. False) ls x"
      by (auto simp: recipe_cycle_def split: list.splits)
    with True no_import show ?thesis by (simp add: recipe_lookahead_def)
  next
    case no_isfile: False
    show ?thesis
    proof (cases "in_conditional_block v")
      case False
      with no_import no_isfile assms show ?thesis
        by (auto simp: recipe_cycle_def split: if_splits)
    next
      case True
      show ?thesis
      proof (cases "re_match l re_path_custom_zoo")
        case custom: True
        from True no_import no_isfile custom assms obtain t where
          sk: "skip_until (\<lambda>x. re_match x re_path_zoo \<or> re_match x re_else_string) ls = Some (t, rest)"
          and "x = t"
          by (auto simp: recipe_cycle_def split: option.splits)
        from skip_until_shape [OF sk] \<open>x = t\<close>
        have "custom_zoo_stop x" "reached (\<lambda>m. \<not> custom_zoo_stop m) ls x"
          by (simp_all add: custom_zoo_stop_def)
        with custom no_import no_isfile show ?thesis by (simp add: custom_zoo_start_def)
      next
        case no_custom: False
        show ?thesis
        proof (cases "re_match l re_path_zoo")
          case zoo: True
          from True no_import no_isfile no_custom zoo assms obtain t where
            sk: "skip_until (\<lambda>x. re_match x re_else_string) ls = Some (t, rest)"
            and "x = t"
            by (auto simp: recipe_cycle_def split: option.splits)
          from skip_until_shape [OF sk] \<open>x = t\<close>
          have "zoo_stop x" "reached (\<lambda>m. \<not> zoo_stop m) ls x"
            by (simp_all add: zoo_stop_def)
          with zoo no_custom no_import no_isfile show ?thesis by (simp add: zoo_start_def)
        next
          case False
          with True no_import no_isfile no_custom assms show ?thesis
            by (auto simp: recipe_cycle_def split: if_splits)
        qed
      qed
    qed
  qed
qed

lemma recipe_main_import_read_ahead:
  assumes "x \<in> set (recipe_main v input)" and "re_match x re_import_model"
  shows "read_ahead recipe_lookahead (\<lambda>m. False) input x \<or>
    (read_ahead custom_zoo_start (\<lambda>m. \<not> custom_zoo_stop m) input x \<and> custom_zoo_stop x) \<or>
    (read_ahead zoo_start (\<lambda>m. \<not> zoo_stop m) input x \<and> zoo_stop x)"
  using assms
proof (induction v input rule: recipe_main.induct)
  case (1 v)
  then show ?case by simp
next
  case (2 v l ls)
  obtain out v' rest where c: "recipe_cycle v l ls = (out, v', rest)"
    by (cases "recipe_cycle v l ls")
  from "2.prems"(1) c have "x \<in> set out \<or> x \<in> set (recipe_main v' rest)"
    by auto
  then show ?case
  proof
    assume "x \<in> set out"
    from recipe_cycle_import [OF c this "2.prems"(2)] show ?thesis
      by auto
  next
    assume "x \<in> set (recipe_main v' rest)"
    note ih = "2.IH" [OF c [symmetric] refl this "2.prems"(2)]
    from recipe_cycle_suffix [OF c] obtain mid where whole: "l # ls = (l # mid) @ rest"
      by auto
    have "read_ahead p q (l # ls) x" if "read_ahead p q rest x" for p q
      unfolding whole using that by (rule read_ahead_append)
    with ih show ?thesis by blast
  qed
qed

lemma docstring_loop_shape:
  assumes "docstring_loop cur ls = (out, cur', rest)"
  shows "\<exists>ds. (\<forall>d \<in> set ds. docstring_record d) \<and>
    set out \<subseteq> set ds \<union> set replacement_lines \<and>
    (ls = ds @ cur' # rest \<or> (ls = ds \<and> rest = [] \<and> cur' \<in> set (cur # ds)))"
  using assms
proof (induction cur ls arbitrary: out cur' rest rule: docstring_loop.induct)
  case (1 cur)
  then show ?case by simp
next
  case (2 cur l ls)
  show ?case
  proof (cases "docstring_record l")
    case True
    then have cond: "re_match l re_doc12 \<or> re_match l re_doc16 \<or> re_match l re_blank"
      by (simp add: docstring_record_def)
    obtain o1 c1 r1 where rec: "docstring_loop l ls = (o1, c1, r1)"
      by (cases "docstring_loop l ls")
    from "2.IH" [OF cond rec] obtain ds where ds: "\<forall>d \<in> set ds. docstring_record d"
      "set o1 \<subseteq> set ds \<union> set replacement_lines"
      "ls = ds @ c1 # r1 \<or> (ls = ds \<and> r1 = [] \<and> c1 \<in> set (l # ds))"
      by blast
    from "2.prems" cond rec have eq: "out = docstring_line l @ o1" "cur' = c1" "rest = r1"
      by simp_all
    from ds(1) True have "\<forall>d \<in> set (l # ds). docstring_record d" by simp
    moreover from ds(2) docstring_line_set [of l] eq
    have "set out \<subseteq> set (l # ds) \<union> set replacement_lines" by auto
    moreover from ds(3) eq
    have "l # ls = (l # ds) @ cur' # rest \<or>
        (l # ls = l # ds \<and> rest = [] \<and> cur' \<in> set (cur # l # ds))"
      by auto
    ultimately show ?thesis by blast
  next
    case False
    then have "\<not> (re_match l re_doc12 \<or> re_match l re_doc16 \<or> re_match l re_blank)"
      by (simp add: docstring_record_def)
    with "2.prems" have "out = []" "cur' = l" "rest = ls" by simp_all
    then show ?thesis by (intro exI [of _ "[]"]) simp
  qed
qed

lemma zoo_model_loop_shape:
  "zoo_model_loop ls = (out, rest) \<Longrightarrow>
   (\<forall>x \<in> set out. re_match x re_return_model \<and>
      reached (\<lambda>m. \<not> re_match m re_except \<and> \<not> re_match m re_return_model) ls x) \<and>
   (\<exists>mid. ls = mid @ rest)"
proof (induction ls arbitrary: out rest)
  case Nil
  then show ?case by simp
next
  case (Cons l ls)
  show ?case
  proof (cases "re_match l re_except")
    case True
    with Cons.prems have "out = []" "rest = drop 2 ls" by simp_all
    moreover have "l # ls = (l # take 2 ls) @ drop 2 ls" by simp
    ultimately show ?thesis by (metis empty_iff list.set(1))
  next
    case False
    show ?thesis
    proof (cases "re_match l re_return_model")
      case True
      with False Cons.prems have "out = [l]" "rest = ls" by simp_all
      moreover have "l # ls = [l] @ ls" by simp
      ultimately show ?thesis using True by (metis empty_iff insert_iff list.set(1) list.set(2) reached.simps(2))
    next
      case no: False
      with False Cons.prems have "zoo_model_loop ls = (out, rest)" by simp
      from Cons.IH [OF this] obtain mid where ih: "\<forall>x \<in> set out. re_match x re_return_model \<and>
          reached (\<lambda>m. \<not> re_match m re_except \<and> \<not> re_match m re_return_model) ls x"
        and "ls = mid @ rest" by blast
      then have "l # ls = (l # mid) @ rest" by simp
      moreover from ih False no
      have "\<forall>x \<in> set out. re_match x re_return_model \<and>
          reached (\<lambda>m. \<not> re_match m re_except \<and> \<not> re_match m re_return_model) (l # ls) x"
        by simp
      ultimately show ?thesis by blast
    qed
  qed
qed

lemma wrapper_rule_shape:
  assumes "wrapper_rule v cur ls = (out, v', rest)"
  shows "(\<forall>x \<in> set out. x = cur \<or>
      (re_match cur re_zoo_model_call \<and> re_match x re_return_model \<and>
       reached (\<lambda>m. \<not> re_match m re_except \<and> \<not> re_match m re_return_model) ls x)) \<and>
    (\<exists>mid. ls = mid @ rest)"
proof -
  have same: "\<exists>mid. ls = mid @ ls" by simp
  from assms same show ?thesis
    by (auto simp: wrapper_rule_def split: if_splits prod.splits dest!: zoo_model_loop_shape)
qed

lemma registry_cycle_shape:
  assumes "registry_cycle v l ls = (out, v', rest)"
  shows "(\<forall>x \<in> set out. re_match x re_import_registry \<longrightarrow>
      registry_lookahead l \<and>
      (reached docstring_record ls x \<or>
       (re_match x re_return_model \<and> reached zoo_model_record ls x))) \<and>
    (\<exists>mid. ls = mid @ rest)"
proof (cases "registry_lookahead l")
  case True
  then have guard: "re_match l re_def_wrapper" "\<not> re_match l re_import_registry"
    "\<not> re_match l re_def_create" "\<not> re_match l re_def_create_zoo_model"
    by (simp_all add: registry_lookahead_def)
  obtain o1 c1 r1 where d: "docstring_loop l ls = (o1, c1, r1)"
    by (cases "docstring_loop l ls")
  obtain o2 v2 r2 where w: "wrapper_rule
      (v\<lparr>in_create_method := False, in_create_zoo_model_method := False,
         in_registered_wrapper_wrapper_func := True\<rparr>) c1 r1 = (o2, v2, r2)"
    by (cases "wrapper_rule
      (v\<lparr>in_create_method := False, in_create_zoo_model_method := False,
         in_registered_wrapper_wrapper_func := True\<rparr>) c1 r1")
  from assms guard d w have eq: "out = l # o1 @ o2" "rest = r2"
    by (auto simp: registry_cycle_def Let_def split: if_splits)
  from docstring_loop_shape [OF d] obtain ds where ds: "\<And>d. d \<in> set ds \<Longrightarrow> docstring_record d"
    "set o1 \<subseteq> set ds \<union> set replacement_lines"
    "ls = ds @ c1 # r1 \<or> (ls = ds \<and> r1 = [] \<and> c1 \<in> set (l # ds))"
    by blast
  note wr = wrapper_rule_shape [OF w]
  from wr obtain m2 where "r1 = m2 @ r2" by blast
  with ds(3) have suffix: "\<exists>mid. ls = mid @ rest"
    unfolding eq by (metis append.assoc append_Cons append_Nil2)
  have in_ds: "reached docstring_record ls x" if "x \<in> set ds" for x
  proof -
    from ds(3) obtain tl where "ls = ds @ tl" by auto
    with reached_in_prefix [of ds docstring_record x tl] ds(1) that show ?thesis by simp
  qed
  have "reached docstring_record ls x \<or>
      (re_match x re_return_model \<and> reached zoo_model_record ls x)"
    if "x \<in> set out" and imp: "re_match x re_import_registry" for x
  proof -
    from imp have fresh: "x \<notin> set replacement_lines"
      using replacement_lines_no_import by blast
    from imp guard(2) have "x \<noteq> l" by auto
    with that(1) eq have "x \<in> set o1 \<or> x \<in> set o2" by auto
    then show ?thesis
    proof
      assume "x \<in> set o1"
      with ds(2) fresh have "x \<in> set ds" by auto
      then show ?thesis using in_ds by simp
    next
      assume "x \<in> set o2"
      with wr have "x = c1 \<or>
          (re_match c1 re_zoo_model_call \<and> re_match x re_return_model \<and>
           reached (\<lambda>m. \<not> re_match m re_except \<and> \<not> re_match m re_return_model) r1 x)"
        by blast
      then show ?thesis
      proof
        assume "x = c1"
        from ds(3) show ?thesis
        proof
          assume "ls = ds @ c1 # r1"
          with reached_prefix [of ds docstring_record "c1 # r1" x] ds(1) \<open>x = c1\<close>
          show ?thesis by simp
        next
          assume "ls = ds \<and> r1 = [] \<and> c1 \<in> set (l # ds)"
          with \<open>x = c1\<close> \<open>x \<noteq> l\<close> have "x \<in> set ds" by auto
          then show ?thesis using in_ds by simp
        qed
      next
        assume call: "re_match c1 re_zoo_model_call \<and> re_match x re_return_model \<and>
           reached (\<lambda>m. \<not> re_match m re_except \<and> \<not> re_match m re_return_model) r1 x"
        then have r1: "r1 \<noteq> []" by auto
        with ds(3) have ls: "ls = ds @ c1 # r1" by auto
        from call have "reached zoo_model_record r1 x"
          by (auto elim: reached_mono [rotated] simp: zoo_model_record_def)
        with call have "reached zoo_model_record (c1 # r1) x"
          by (simp add: zoo_model_record_def)
        with reached_prefix [of ds zoo_model_record "c1 # r1" x] ds(1)
        have "reached zoo_model_record ls x"
          unfolding ls by (simp add: zoo_model_record_def)
        with call show ?thesis by simp
      qed
    qed
  qed
  with True suffix show ?thesis by blast
next
  case False
  have same: "\<exists>mid. ls = mid @ ls" by simp
  show ?thesis
  proof (cases "re_match l re_def_wrapper")
    case True
    with False have "re_match l re_import_registry \<or> re_match l re_def_create \<or>
        re_match l re_def_create_zoo_model"
      by (simp add: registry_lookahead_def)
    with assms have "set out \<subseteq> {l}" "rest = ls" "l \<in> set out \<longrightarrow> \<not> re_match l re_import_registry"
      by (auto simp: registry_cycle_def Let_def split: if_splits)
    with same show ?thesis by auto
  next
    case no: False
    from registry_cycle_plain [OF no, of v ls] assms
    have "set out \<subseteq> {l}" "rest = ls" "l \<in> set out \<longrightarrow> \<not> re_match l re_import_registry"
      by (auto split: if_splits)
    with same show ?thesis by auto
  qed
qed

lemma registry_main_import_read_ahead:
  assumes "x \<in> set (registry_main v input)" and "re_match x re_import_registry"
  shows "read_ahead registry_lookahead docstring_record input x \<or>
    (re_match x re_return_model \<and> read_ahead registry_lookahead zoo_model_record input x)"
  using assms
proof (induction v input rule: registry_main.induct)
  case (1 v)
  then show ?case by simp
next
  case (2 v l ls)
  obtain out v' rest where c: "registry_cycle v l ls = (out, v', rest)"
    by (cases "registry_cycle v l ls")
  note shape = registry_cycle_shape [OF c]
  from "2.prems"(1) c have "x \<in> set out \<or> x \<in> set (registry_main v' rest)"
    by auto
  then show ?case
  proof
    assume "x \<in> set out"
    with shape "2.prems"(2) show ?thesis by auto
  next
    assume "x \<in> set (registry_main v' rest)"
    note ih = "2.IH" [OF c [symmetric] refl this "2.prems"(2)]
    from shape obtain mid where whole: "l # ls = (l # mid) @ rest"
      by auto
    have "read_ahead p q (l # ls) x" if "read_ahead p q rest x" for p q
      unfolding whole using that by (rule read_ahead_append)
    with ih show ?thesis by blast
  qed
qed

text \<open>
  C9 (as amended). For every input, every line a script prints is a line of the input or
  one of the script's string constants, and a printed line that matches the script's
  \<open>sparsezoo\<close> import pattern was read by \<open>getline\<close>, never by the main loop. For
  \<open>Recipe.create_instance\<close> it is the line directly after a line matching
  \<^verbatim>\<open>if not os.path.isfile(path_or_modifiers):\<close>, or the line that ends one of the two
  skipping loops, reached from the line that starts the loop through lines that do not
  end it. For the registry it follows a \<^verbatim>\<open>def wrapper(\<close> line with only docstring-loop
  lines in between, or it is the \<^verbatim>\<open>return model\<close> line that ends the loop skipping
  the \<open>zoo_model\<close> block started there. In each case it stands after the first line
  that starts a lookahead; and an input without such a line is filtered line by line.
\<close>

theorem awk_import_printed_only_read_ahead:
  "set (recipe_awk input) \<subseteq> set input \<and>
   set (registry_awk input) \<subseteq> set input \<union> set replacement_lines \<and>
   (\<forall>x \<in> set (recipe_awk input). re_match x re_import_model \<longrightarrow>
      x \<in> set (tl (dropWhile (\<lambda>l. \<not> re_match l re_isfile) input)) \<and>
      (read_ahead recipe_lookahead (\<lambda>m. False) input x \<or>
       (read_ahead custom_zoo_start (\<lambda>m. \<not> custom_zoo_stop m) input x \<and> custom_zoo_stop x) \<or>
       (read_ahead zoo_start (\<lambda>m. \<not> zoo_stop m) input x \<and> zoo_stop x))) \<and>
   (\<forall>x \<in> set (registry_awk input). re_match x re_import_registry \<longrightarrow>
      x \<in> set (tl (dropWhile (\<lambda>l. \<not> re_match l re_def_wrapper) input)) \<and>
      (read_ahead registry_lookahead docstring_record input x \<or>
       (re_match x re_return_model \<and> read_ahead registry_lookahead zoo_model_record input x))) \<and>
   ((\<forall>l \<in> set input. \<not> re_match l re_isfile) \<longrightarrow>
      recipe_awk input = filter (\<lambda>l. \<not> re_match l re_import_model) input) \<and>
   ((\<forall>l \<in> set input. \<not> re_match l re_def_wrapper) \<longrightarrow>
      registry_awk input =
        filter (\<lambda>l. \<not> re_match l re_import_registry \<and>
                    (re_match l re_def_create \<or> \<not> re_match l re_def_create_zoo_model)) input)"
proof -
  have "set (recipe_awk input) \<subseteq> set input"
    unfolding recipe_awk_def by (rule recipe_main_set)
  moreover have "set (registry_awk input) \<subseteq> set input \<union> set replacement_lines"
    unfolding registry_awk_def by (rule registry_main_set)
  moreover have "x \<in> set (tl (dropWhile (\<lambda>l. \<not> re_match l re_isfile) input)) \<and>
      (read_ahead recipe_lookahead (\<lambda>m. False) input x \<or>
       (read_ahead custom_zoo_start (\<lambda>m. \<not> custom_zoo_stop m) input x \<and> custom_zoo_stop x) \<or>
       (read_ahead zoo_start (\<lambda>m. \<not> zoo_stop m) input x \<and> zoo_stop x))"
    if "x \<in> set (recipe_awk input)" and "re_match x re_import_model" for x
  proof -
    let ?v = "\<lparr>printing = True, in_conditional_block = False\<rparr>"
    from that have run: "x \<in> set (recipe_main ?v input)"
      by (simp add: recipe_awk_def)
    have "\<not> in_conditional_block ?v" by simp
    from recipe_main_import [OF this run that(2)]
      recipe_main_import_read_ahead [OF run that(2)]
    show ?thesis by simp
  qed
  moreover have "x \<in> set (tl (dropWhile (\<lambda>l. \<not> re_match l re_def_wrapper) input)) \<and>
      (read_ahead registry_lookahead docstring_record input x \<or>
       (re_match x re_return_model \<and> read_ahead registry_lookahead zoo_model_record input x))"
    if "x \<in> set (registry_awk input)" and "re_match x re_import_registry" for x
  proof -
    from that have run: "x \<in> set (registry_main
        \<lparr>in_create_method = False, in_create_zoo_model_method = False,
          in_registered_wrapper_wrapper_func = False\<rparr> input)"
      by (simp add: registry_awk_def)
    from registry_main_import [OF run that(2)]
      registry_main_import_read_ahead [OF run that(2)]
    show ?thesis by simp
  qed
  moreover have "recipe_awk input = filter (\<lambda>l. \<not> re_match l re_import_model) input"
    if "\<forall>l \<in> set input. \<not> re_match l re_isfile"
    using that by (intro recipe_awk_no_lookahead) simp
  moreover have "registry_awk input =
        filter (\<lambda>l. \<not> re_match l re_import_registry \<and>
                    (re_match l re_def_create \<or> \<not> re_match l re_def_create_zoo_model)) input"
    if "\<forall>l \<in> set input. \<not> re_match l re_def_wrapper"
    using that by (intro registry_awk_no_lookahead) simp
  ultimately show ?thesis by blast
qed

theorem awk_import_printed_only_read_ahead_witness:
  "''    from sparsezoo import Model'' \<in> set (recipe_awk
      [''from sparsezoo import Model'',
       ''if not os.path.isfile(path_or_modifiers):'',
       ''    from sparsezoo import Model'',
       ''from sparsezoo import Model'']) \<and>
   re_match ''    from sparsezoo import Model'' re_import_model \<and>
   ''    from sparsezoo import Model'' \<in> set (tl (dropWhile (\<lambda>l. \<not> re_match l re_isfile)
      [''from sparsezoo import Model'',
       ''if not os.path.isfile(path_or_modifiers):'',
       ''    from sparsezoo import Model'',
       ''from sparsezoo import Model''])) \<and>
   read_ahead recipe_lookahead (\<lambda>m. False)
      [''from sparsezoo import Model'',
       ''if not os.path.isfile(path_or_modifiers):'',
       ''    from sparsezoo import Model'',
       ''from sparsezoo import Model'']
      ''    from sparsezoo import Model'' \<and>
   recipe_awk
      [''from sparsezoo import Model'',
       ''if not os.path.isfile(path_or_modifiers):'',
       ''    from sparsezoo import Model'',
       ''from sparsezoo import Model'']
     = [''if not os.path.isfile(path_or_modifiers):'', ''    from sparsezoo import Model''] \<and>
   registry_awk
      [''from sparsezoo import Model, model_args_to_stub'', ''def create(key):'',
       ''def create_zoo_model(key):'', ''import torch'']
     = [''def create(key):'', ''import torch'']"
proof -
  let ?input = "[''from sparsezoo import Model'',
       ''if not os.path.isfile(path_or_modifiers):'',
       ''    from sparsezoo import Model'',
       ''from sparsezoo import Model'']"
  let ?x = "''    from sparsezoo import Model''"
  let ?registry = "[''from sparsezoo import Model, model_args_to_stub'', ''def create(key):'',
       ''def create_zoo_model(key):'', ''import torch'']"
  have run: "recipe_awk ?input
     = [''if not os.path.isfile(path_or_modifiers):'', ''    from sparsezoo import Model'']"
    by code_simp
  have emitted: "?x \<in> set (recipe_awk ?input)"
    by (simp add: run)
  have import: "re_match ?x re_import_model"
    by code_simp
  have no_stop: "\<not> custom_zoo_stop ?x" "\<not> zoo_stop ?x"
    by code_simp+
  from awk_import_printed_only_read_ahead [of ?input] emitted import
  have "?x \<in> set (tl (dropWhile (\<lambda>l. \<not> re_match l re_isfile) ?input)) \<and>
      (read_ahead recipe_lookahead (\<lambda>m. False) ?input ?x \<or>
       (read_ahead custom_zoo_start (\<lambda>m. \<not> custom_zoo_stop m) ?input ?x \<and> custom_zoo_stop ?x) \<or>
       (read_ahead zoo_start (\<lambda>m. \<not> zoo_stop m) ?input ?x \<and> zoo_stop ?x))"
    by blast
  with no_stop have after: "?x \<in> set (tl (dropWhile (\<lambda>l. \<not> re_match l re_isfile) ?input))"
    and ahead: "read_ahead recipe_lookahead (\<lambda>m. False) ?input ?x"
    by blast+
  have no_wrapper: "\<forall>l \<in> set ?registry. \<not> re_match l re_def_wrapper"
    by code_simp
  with awk_import_printed_only_read_ahead [of ?registry]
  have "registry_awk ?registry =
      filter (\<lambda>l. \<not> re_match l re_import_registry \<and>
                  (re_match l re_def_create \<or> \<not> re_match l re_def_create_zoo_model)) ?registry"
    by blast
  also have "\<dots> = [''def create(key):'', ''import torch'']"
    by code_simp
  finally have registry: "registry_awk ?registry = [''def create(key):'', ''import torch'']" .
  from emitted import after ahead run registry show ?thesis by blast
qed

text \<open>
  The claim as first stated fails: a line read by \<open>getline\<close> never reaches the rule that deletes
  the import. Each script prints the import line that directly follows the line its
  lookahead rule matches.
\<close>

theorem awk_import_after_lookahead_printed:
  "recipe_awk
     [''        if not os.path.isfile(path_or_modifiers):'',
      ''            from sparsezoo import Model'',
      ''            model = Model(path_or_modifiers)'']
     = [''        if not os.path.isfile(path_or_modifiers):'',
        ''            from sparsezoo import Model'',
        ''            model = Model(path_or_modifiers)''] \<and>
   re_match ''            from sparsezoo import Model'' re_import_model \<and>
   registry_awk
     [''        def wrapper(pretrained_path=None):'',
      ''            from sparsezoo import Model, model_args_to_stub'',
      ''            return model'']
     = [''        def wrapper(pretrained_path=None):'',
        ''            from sparsezoo import Model, model_args_to_stub'',
        ''            return model''] \<and>
   re_match ''            from sparsezoo import Model, model_args_to_stub'' re_import_registry"
  by code_simp

section \<open>The scheduling engine described by the specification\<close>

text \<open>
  The repository's sources hold recipes (in the tutorial notebooks) but not the code
  of the engine that schedules their modifiers. The definitions of this section are
  therefore written from the specification's own description of the engine, each
  marked as such. Positions on the timeline are fractional epochs, modelled as exact
  rationals.
\<close>

subsection \<open>Modifiers and their lifecycle\<close>

text \<open>Modelled from the spec: the phases of a modifier instance (section 3); the
  engine's modifier class is missing from the sources.\<close>

datatype phase = Pending | Active | Finished

text \<open>Modelled from the spec: the scheduling granularity a modifier chooses, step or
  epoch boundary (section 4.3); the modifier class is missing from the sources.\<close>

datatype granularity = Step | Epoch

text \<open>Modelled from the spec: a modifier instance, its spec's interval \<open>[start, end)\<close>
  with an absent end meaning "runs until training ends", and its mutable phase
  (section 3); the modifier class is missing from the sources.\<close>

record modifier =
  name :: string
  start :: rat
  end_at :: "rat option"
  granularity :: granularity
  phase :: phase

text \<open>Modelled from the spec: the lifecycle callbacks the engine issues (section 4.3),
  recorded as a trace; \<open>Update\<close> carries the progress value the engine supplies. The
  callbacks' implementations are missing from the sources (and out of the spec's scope).\<close>

datatype callback =
  Initialize string rat
| Update string rat "rat option"
| Finalize string rat

text \<open>Modelled from the spec: \<open>applies_at(position)\<close> is true iff
  \<open>start <= position < end\<close>, or \<open>end\<close> is open (section 4.3); the function is missing
  from the sources.\<close>

definition applies_at :: "modifier \<Rightarrow> rat \<Rightarrow> bool" where
  "applies_at m position =
     (start m \<le> position \<and> (case end_at m of None \<Rightarrow> True | Some e \<Rightarrow> position < e))"

text \<open>Modelled from the spec: "the engine supplies a normalized
  \<open>progress = (position - start) / (end - start)\<close> value clamped to [0,1] when \<open>end\<close> is
  finite" (section 4.3); the function is missing from the sources. No value is supplied
  for an open end; for an empty interval (\<open>end = start\<close>) the quotient is undefined and
  none is supplied either.\<close>

definition progress :: "modifier \<Rightarrow> rat \<Rightarrow> rat option" where
  "progress m position =
     (case end_at m of
        None \<Rightarrow> None
      | Some e \<Rightarrow>
          if e = start m then None
          else Some (max 0 (min 1 ((position - start m) / (e - start m)))))"

text \<open>Modelled from the spec: a value interpolated linearly from \<open>init\<close> to \<open>final\<close>
  over the interval (sections 4.5 and 8; the \<open>lr_func: linear\<close> of the notebooks'
  \<open>LearningRateFunctionModifier\<close>); the modifier's code is missing from the sources.\<close>

definition interpolate :: "rat \<Rightarrow> rat \<Rightarrow> rat \<Rightarrow> rat" where
  "interpolate init final pr = init + pr * (final - init)"

text \<open>Modelled from the spec: what \<open>on_step\<close> does with one modifier that is not yet
  Finished: "if it transitions Pending->Active, calls initialize then update; if already
  Active, calls update; if it transitions Active->Finished, calls finalize"
  (section 4.5), the transitions being "position enters interval" and "position exits
  interval" (section 4.3). The Scheduler's code is missing from the sources.\<close>

definition visit :: "rat \<Rightarrow> modifier \<Rightarrow> callback list \<times> modifier" where
  "visit position m =
     (case phase m of
        Finished \<Rightarrow> ([], m)
      | Pending \<Rightarrow>
          if applies_at m position
          then ([Initialize (name m) position, Update (name m) position (progress m position)],
                m\<lparr>phase := Active\<rparr>)
          else ([], m)
      | Active \<Rightarrow>
          if applies_at m position
          then ([Update (name m) position (progress m position)], m)
          else ([Finalize (name m) position], m\<lparr>phase := Finished\<rparr>))"

text \<open>Modelled from the spec: \<open>on_step\<close> visits the modifiers in the resolved order, and
  \<open>on_epoch\<close> is "the same as \<open>on_step\<close> but for modifiers whose granularity is epoch-level
  rather than step-level" (section 4.5). The Scheduler's code is missing from the
  sources.\<close>

fun advance :: "granularity \<Rightarrow> rat \<Rightarrow> modifier list \<Rightarrow> callback list \<times> modifier list" where
  "advance g position [] = ([], [])"
| "advance g position (m # ms) =
     (case (if granularity m = g then visit position m else ([], m)) of
        (calls, m') \<Rightarrow>
          (case advance g position ms of (calls', ms') \<Rightarrow> (calls @ calls', m' # ms')))"

definition on_step :: "rat \<Rightarrow> modifier list \<Rightarrow> callback list \<times> modifier list" where
  "on_step position ms = advance Step position ms"

definition on_epoch :: "rat \<Rightarrow> modifier list \<Rightarrow> callback list \<times> modifier list" where
  "on_epoch epoch ms = advance Epoch epoch ms"

subsection \<open>Progress\<close>

lemma visit_update:
  assumes "Update n q pr \<in> set (fst (visit position m))"
  shows "n = name m \<and> q = position \<and> pr = progress m position \<and> applies_at m position"
  using assms by (auto simp: visit_def split: phase.splits if_splits)

lemma advance_update:
  assumes "Update n q pr \<in> set (fst (advance g position ms))"
  shows "\<exists>m \<in> set ms. granularity m = g \<and> n = name m \<and> q = position \<and>
           pr = progress m position \<and> applies_at m position"
  using assms
proof (induction ms)
  case Nil
  then show ?case by simp
next
  case (Cons m ms)
  let ?here = "if granularity m = g then visit position m else ([], m)"
  from Cons.prems have "Update n q pr \<in> set (fst ?here) \<or>
      Update n q pr \<in> set (fst (advance g position ms))"
    by (auto split: prod.splits)
  then show ?case
  proof
    assume here: "Update n q pr \<in> set (fst ?here)"
    then have g: "granularity m = g"
      by (auto split: if_splits)
    with here have "Update n q pr \<in> set (fst (visit position m))" by simp
    from visit_update [OF this] g show ?thesis by simp
  next
    assume "Update n q pr \<in> set (fst (advance g position ms))"
    from Cons.IH [OF this] show ?thesis by auto
  qed
qed

lemma progress_inside:
  assumes "end_at m = Some e" and "applies_at m position"
  shows "progress m position = Some ((position - start m) / (e - start m))"
proof -
  from assms have pos: "start m \<le> position" "position < e"
    by (simp_all add: applies_at_def)
  then have "0 \<le> (position - start m) / (e - start m)"
    and "(position - start m) / (e - start m) \<le> 1"
    by simp_all
  with pos assms(1) show ?thesis
    by (simp add: progress_def)
qed

text \<open>
  C3. For a modifier with a finite interval \<open>[start, end)\<close>, \<open>start < end\<close>, the
  progress the engine supplies at a position is \<open>(position - start) / (end - start)\<close>
  clamped to \<open>[0, 1]\<close>, and it is 0 at \<open>position = start\<close>. Every \<open>update\<close> call
  issued by \<open>on_step\<close> (\<open>advance Step\<close>) or \<open>on_epoch\<close> (\<open>advance Epoch\<close>) belongs to
  a modifier of the list, at the position of the call, with \<open>start \<le> position\<close>, and when
  the modifier's end is finite with \<open>position < end\<close> (never \<open>position \<ge> end\<close>) and with
  the quotient itself as progress. A modifier active on \<open>[0, 10)\<close> that interpolates
  linearly from 1 to 0 gets progress 1/2 and the value 1/2 at epoch 5.
\<close>

theorem progress_contract:
  "(\<forall>m e position. end_at m = Some e \<and> start m < e \<longrightarrow>
      progress m position = Some (max 0 (min 1 ((position - start m) / (e - start m)))) \<and>
      progress m (start m) = Some 0) \<and>
   (\<forall>g position ms n q pr. Update n q pr \<in> set (fst (advance g position ms)) \<longrightarrow>
      (\<exists>m \<in> set ms. name m = n \<and> granularity m = g \<and> q = position \<and> start m \<le> q \<and>
         pr = progress m q \<and>
         (\<forall>e. end_at m = Some e \<longrightarrow>
            q < e \<and> pr = Some ((q - start m) / (e - start m)) \<and>
            0 \<le> (q - start m) / (e - start m) \<and> (q - start m) / (e - start m) < 1))) \<and>
   (let lr = \<lparr>name = ''LearningRateFunctionModifier'', start = 0, end_at = Some 10,
                granularity = Epoch, phase = Pending\<rparr>
    in progress lr 5 = Some (1 / 2) \<and> interpolate 1 0 (1 / 2) = 1 / 2 \<and>
       fst (on_epoch 5 [lr]) =
         [Initialize ''LearningRateFunctionModifier'' 5,
          Update ''LearningRateFunctionModifier'' 5 (Some (1 / 2))])"
proof -
  have formula: "progress m position
        = Some (max 0 (min 1 ((position - start m) / (e - start m)))) \<and>
      progress m (start m) = Some 0"
    if "end_at m = Some e" and "start m < e" for m e position
    using that by (simp add: progress_def)
  have updates: "\<exists>m \<in> set ms. name m = n \<and> granularity m = g \<and> q = position \<and> start m \<le> q \<and>
         pr = progress m q \<and>
         (\<forall>e. end_at m = Some e \<longrightarrow>
            q < e \<and> pr = Some ((q - start m) / (e - start m)) \<and>
            0 \<le> (q - start m) / (e - start m) \<and> (q - start m) / (e - start m) < 1)"
    if call: "Update n q pr \<in> set (fst (advance g position ms))" for g position ms n q pr
  proof -
    from advance_update [OF call] obtain m where m: "m \<in> set ms" "granularity m = g"
      "n = name m" "q = position" "pr = progress m position" "applies_at m position"
      by blast
    have finite_end: "q < e \<and> pr = Some ((q - start m) / (e - start m)) \<and>
        0 \<le> (q - start m) / (e - start m) \<and> (q - start m) / (e - start m) < 1"
      if e: "end_at m = Some e" for e
    proof -
      from m(6) e have range: "start m \<le> position" "position < e"
        by (simp_all add: applies_at_def)
      then have "0 \<le> (position - start m) / (e - start m)"
        and "(position - start m) / (e - start m) < 1"
        by simp_all
      with progress_inside [OF e m(6)] m(4,5) range show ?thesis by simp
    qed
    from m(6) have "start m \<le> position"
      by (simp add: applies_at_def)
    with m finite_end show ?thesis by blast
  qed
  have scenario: "(let lr = \<lparr>name = ''LearningRateFunctionModifier'', start = 0, end_at = Some 10,
                 granularity = Epoch, phase = Pending\<rparr>
     in progress lr 5 = Some (1 / 2) \<and> interpolate 1 0 (1 / 2) = 1 / 2 \<and>
        fst (on_epoch 5 [lr]) =
          [Initialize ''LearningRateFunctionModifier'' 5,
           Update ''LearningRateFunctionModifier'' 5 (Some (1 / 2))])"
    by (simp add: progress_def interpolate_def on_epoch_def visit_def applies_at_def)
  from formula updates scenario show ?thesis
    by blast
qed

theorem progress_contract_witness:
  "end_at \<lparr>name = ''lr'', start = 2, end_at = Some 10, granularity = Step, phase = Active\<rparr>
     = Some 10 \<and>
   start \<lparr>name = ''lr'', start = 2, end_at = Some 10, granularity = Step, phase = Active\<rparr>
     < 10 \<and>
   progress \<lparr>name = ''lr'', start = 2, end_at = Some 10, granularity = Step, phase = Active\<rparr> 4
     = Some (1 / 4) \<and>
   progress \<lparr>name = ''lr'', start = 2, end_at = Some 10, granularity = Step, phase = Active\<rparr> 2
     = Some 0 \<and>
   progress \<lparr>name = ''lr'', start = 2, end_at = Some 10, granularity = Step, phase = Active\<rparr> 12
     = Some 1 \<and>
   Update ''lr'' 4 (Some (1 / 4)) \<in> set (fst (on_step 4
     [\<lparr>name = ''lr'', start = 2, end_at = Some 10, granularity = Step, phase = Active\<rparr>])) \<and>
   fst (on_step 10
     [\<lparr>name = ''lr'', start = 2, end_at = Some 10, granularity = Step, phase = Active\<rparr>])
     = [Finalize ''lr'' 10]"
proof -
  let ?m = "\<lparr>name = ''lr'', start = 2, end_at = Some 10, granularity = Step, phase = Active\<rparr>"
  have h: "end_at ?m = Some 10 \<and> start ?m < 10" by simp
  from progress_contract have formula: "progress ?m position
        = Some (max 0 (min 1 ((position - start ?m) / (10 - start ?m)))) \<and>
      progress ?m (start ?m) = Some 0" for position
    using h by blast
  have p4: "progress ?m 4 = Some (1 / 4)"
    using formula [of 4] by simp
  have p2: "progress ?m 2 = Some 0"
    using formula [of 2] by simp
  have p12: "progress ?m 12 = Some 1"
    using formula [of 12] by simp
  have call: "Update ''lr'' 4 (Some (1 / 4)) \<in> set (fst (on_step 4 [?m]))"
    by (simp add: on_step_def visit_def applies_at_def progress_def)
  have fin: "fst (on_step 10 [?m]) = [Finalize ''lr'' 10]"
    by (simp add: on_step_def visit_def applies_at_def)
  from h p4 p2 p12 call fin show ?thesis by simp
qed

subsection \<open>Variables, formulas and overrides\<close>

text \<open>Modelled from the spec: a scalar is a number, a string or a boolean (section 3);
  the recipe classes are missing from the sources.\<close>

datatype scalar = Num rat | Str string | Bool bool

text \<open>Modelled from the spec: the formula language, "numbers, names, +-*/,
  comparisons" (section 9); a formula string \<open>eval(...)\<close> is taken as already parsed.
  The evaluator is missing from the sources.\<close>

datatype binop = Plus | Minus | Times | Divide | Less | Less_eq | Greater | Greater_eq | Equal

datatype expr = Const scalar | Ref string | Binop binop expr expr

text \<open>Modelled from the spec: a raw value is a literal or a formula (sections 3 and
  4.2); the recipe classes are missing from the sources.\<close>

datatype raw = Literal scalar | Formula expr

text \<open>Modelled from the spec: the resolver's two errors (section 4.1); the resolver
  is missing from the sources.\<close>

datatype error = CyclicVariableError string | UndefinedVariableError string

text \<open>Modelled from the spec: the variable mapping, "name -> literal-or-formula"
  (section 4.1), as the list of its entries; the recipe classes are missing from the
  sources.\<close>

type_synonym variables = "(string \<times> raw) list"

text \<open>Modelled from the spec: the meaning of the operators of the formula language
  (section 9), which the spec leaves open; the evaluator is missing from the sources.\<close>

type_synonym operators = "binop \<Rightarrow> scalar \<Rightarrow> scalar \<Rightarrow> error + scalar"

text \<open>Modelled from the spec: the variables not yet in the visited set of the
  recursive resolution (section 4.1); the resolver is missing from the sources.\<close>

definition unvisited :: "variables \<Rightarrow> string list \<Rightarrow> string set" where
  "unvisited vars visited = set (map fst vars) - set visited"

lemma unvisited_less:
  assumes "x \<notin> set visited" and "map_of vars x = Some r"
  shows "card (unvisited vars (x # visited)) < card (unvisited vars visited)"
proof -
  from assms(2) have "x \<in> set (map fst vars)"
    by (metis map_of_eq_None_iff option.distinct(1) set_map)
  with assms(1) have "unvisited vars (x # visited) \<subset> unvisited vars visited"
    by (auto simp: unvisited_def)
  moreover have "finite (unvisited vars visited)"
    by (simp add: unvisited_def)
  ultimately show ?thesis
    by (rule psubset_card_mono [rotated])
qed

text \<open>Modelled from the spec: recursive resolution of a formula against the variable
  mapping, "cycle detected via visited-set during recursive resolution",
  \<open>UndefinedVariableError\<close> "if a formula references an unknown name" (section 4.1).
  The resolver is missing from the sources. The spec does not say what an operator
  yields on operands it does not fit (a string, a zero divisor): the operators are a
  parameter.\<close>

function resolve :: "operators \<Rightarrow> variables \<Rightarrow> string list \<Rightarrow> expr \<Rightarrow> error + scalar" where
  "resolve ops vars visited (Const c) = Inr c"
| "resolve ops vars visited (Ref x) =
     (if x \<in> set visited then Inl (CyclicVariableError x)
      else (case map_of vars x of
              None \<Rightarrow> Inl (UndefinedVariableError x)
            | Some (Literal c) \<Rightarrow> Inr c
            | Some (Formula e) \<Rightarrow> resolve ops vars (x # visited) e))"
| "resolve ops vars visited (Binop f a b) =
     (case resolve ops vars visited a of
        Inl err \<Rightarrow> Inl err
      | Inr u \<Rightarrow>
          (case resolve ops vars visited b of
             Inl err \<Rightarrow> Inl err
           | Inr w \<Rightarrow> ops f u w))"
  by pat_completeness auto
termination
  by (relation "measures [\<lambda>(ops, vars, visited, e). card (unvisited vars visited),
                          \<lambda>(ops, vars, visited, e). size e]")
    (auto intro: unvisited_less)

text \<open>Modelled from the spec: a raw value resolves to itself when it is a literal and
  to the value of its formula otherwise (section 4.1); the resolver is missing from the
  sources.\<close>

definition resolve_raw :: "operators \<Rightarrow> variables \<Rightarrow> raw \<Rightarrow> error + scalar" where
  "resolve_raw ops vars r = (case r of Literal c \<Rightarrow> Inr c | Formula e \<Rightarrow> resolve ops vars [] e)"

text \<open>Modelled from the spec: a step that may fail, applied to each element in order;
  the first error is the result ("a malformed recipe is rejected entirely at load time",
  section 4.5). The loader is missing from the sources.\<close>

fun each :: "('a \<Rightarrow> error + 'b) \<Rightarrow> 'a list \<Rightarrow> error + 'b list" where
  "each f [] = Inr []"
| "each f (x # xs) =
     (case f x of
        Inl err \<Rightarrow> Inl err
      | Inr y \<Rightarrow> (case each f xs of Inl err \<Rightarrow> Inl err | Inr ys \<Rightarrow> Inr (y # ys)))"

text \<open>Modelled from the spec: the resolver's contract, "given a mapping of variable
  name -> literal-or-formula, produce a fully-resolved mapping of name -> literal", with
  the keys sorted before resolving (section 4.1); the resolver is missing from the
  sources.\<close>

definition resolve_all :: "operators \<Rightarrow> variables \<Rightarrow> error + (string \<times> scalar) list" where
  "resolve_all ops vars =
     each (\<lambda>k. case resolve ops vars [] (Ref k) of Inl err \<Rightarrow> Inl err | Inr c \<Rightarrow> Inr (k, c))
       (sort (remdups (map fst vars)))"

text \<open>Modelled from the spec: the override mechanism, "a flat mapping of
  variable-name -> value ... that replaces same-named top-level variables prior to
  resolution; unknown override names are a non-fatal warning" (section 4.2). The
  result is the variables after the overrides and the names warned about. The parser
  is missing from the sources.\<close>

fun apply_overrides :: "variables \<Rightarrow> (string \<times> scalar) list \<Rightarrow> variables \<times> string list" where
  "apply_overrides vars [] = (vars, [])"
| "apply_overrides vars ((k, c) # overrides) =
     (if k \<in> set (map fst vars)
      then apply_overrides (map (\<lambda>(k', r). if k' = k then (k', Literal c) else (k', r)) vars) overrides
      else (case apply_overrides vars overrides of (vars', warned) \<Rightarrow> (vars', k # warned)))"

text \<open>Modelled from the spec: a ModifierSpec, "type tag, parameter mapping (raw,
  possibly formula-valued), start, end (or open), stage name" (section 3); the recipe
  classes are missing from the sources.\<close>

record modifier_spec =
  type_tag :: string
  stage :: string
  start_raw :: raw
  end_raw :: "raw option"
  params :: "(string \<times> raw) list"

text \<open>Modelled from the spec: a recipe as the parser reads it, top-level variables and
  the modifier specs in declaration order, each carrying its stage name (sections 3 and
  6); the recipe classes are missing from the sources.\<close>

record recipe =
  variables :: variables
  modifiers :: "modifier_spec list"

text \<open>Modelled from the spec: a modifier spec after resolution, values in place of
  formulas (sections 4.1 and 4.6); the recipe classes are missing from the sources.\<close>

record resolved_spec =
  r_type_tag :: string
  r_stage :: string
  r_start :: scalar
  r_end :: "scalar option"
  r_params :: "(string \<times> scalar) list"

text \<open>Modelled from the spec: what the loader hands on, the resolved variables, the
  resolved modifier specs in declaration order, and the warnings about unknown override
  names (sections 4.1 and 4.2); the loader is missing from the sources.\<close>

record resolved_recipe =
  r_variables :: "(string \<times> scalar) list"
  r_modifiers :: "resolved_spec list"
  warnings :: "string list"

text \<open>Modelled from the spec: the resolution of a modifier's end, which may be absent
  ("an absent end means runs until training ends", section 3); the resolver is missing
  from the sources.\<close>

definition resolve_end :: "operators \<Rightarrow> variables \<Rightarrow> raw option \<Rightarrow> error + scalar option" where
  "resolve_end ops vars r =
     (case r of
        None \<Rightarrow> Inr None
      | Some x \<Rightarrow> (case resolve_raw ops vars x of Inl err \<Rightarrow> Inl err | Inr c \<Rightarrow> Inr (Some c)))"

text \<open>Modelled from the spec: the resolution of one modifier spec, its start, its end
  and its parameters in turn (section 4.1); the resolver is missing from the sources.\<close>

definition resolve_spec :: "operators \<Rightarrow> variables \<Rightarrow> modifier_spec \<Rightarrow> error + resolved_spec" where
  "resolve_spec ops vars m =
     (case resolve_raw ops vars (start_raw m) of
        Inl err \<Rightarrow> Inl err
      | Inr s \<Rightarrow>
          (case resolve_end ops vars (end_raw m) of
             Inl err \<Rightarrow> Inl err
           | Inr e \<Rightarrow>
               (case each (\<lambda>(k, r). case resolve_raw ops vars r of
                                        Inl err \<Rightarrow> Inl err | Inr c \<Rightarrow> Inr (k, c)) (params m) of
                  Inl err \<Rightarrow> Inl err
                | Inr ps \<Rightarrow>
                    Inr \<lparr>r_type_tag = type_tag m, r_stage = stage m, r_start = s, r_end = e,
                         r_params = ps\<rparr>)))"

text \<open>Modelled from the spec: the part of \<open>load\<close> before the modifiers are built:
  overrides first, then variable resolution, then the modifiers' values ("which must be
  applied before variable resolution", section 3; data flow of section 2). The loader
  is missing from the sources.\<close>

definition load_recipe ::
  "operators \<Rightarrow> recipe \<Rightarrow> (string \<times> scalar) list \<Rightarrow> error + resolved_recipe" where
  "load_recipe ops r recipe_args =
     (case apply_overrides (variables r) recipe_args of
        (vars, warned) \<Rightarrow>
          (case resolve_all ops vars of
             Inl err \<Rightarrow> Inl err
           | Inr env \<Rightarrow>
               (case each (resolve_spec ops vars) (modifiers r) of
                  Inl err \<Rightarrow> Inl err
                | Inr ms \<Rightarrow> Inr \<lparr>r_variables = env, r_modifiers = ms, warnings = warned\<rparr>)))"

text \<open>The transfer-learning recipe printed in the token-classification notebook, its
  variables and its first two modifiers (\<open>num_epochs: 13\<close>, \<open>init_lr: 1.5e-4\<close>,
  \<open>end_epoch: eval(num_epochs)\<close>).\<close>

definition transfer_recipe :: recipe where
  "transfer_recipe =
     \<lparr>variables =
        [(''num_epochs'', Literal (Num 13)),
         (''init_lr'', Literal (Num (15 / 100000))),
         (''final_lr'', Literal (Num 0)),
         (''qat_start_epoch'', Literal (Num 8)),
         (''observer_epoch'', Literal (Num 12)),
         (''quantize_embeddings'', Literal (Num 1)),
         (''distill_hardness'', Literal (Num 1)),
         (''distill_temperature'', Literal (Num 2))],
      modifiers =
        [\<lparr>type_tag = ''EpochRangeModifier'', stage = ''training_modifiers'',
          start_raw = Literal (Num 0), end_raw = Some (Formula (Ref ''num_epochs'')),
          params = []\<rparr>,
         \<lparr>type_tag = ''LearningRateFunctionModifier'', stage = ''training_modifiers'',
          start_raw = Literal (Num 0), end_raw = Some (Formula (Ref ''num_epochs'')),
          params = [(''lr_func'', Literal (Str ''linear'')),
                    (''init_lr'', Formula (Ref ''init_lr'')),
                    (''final_lr'', Formula (Ref ''final_lr''))]\<rparr>]\<rparr>"

text \<open>Modelled from the spec: the value the override mapping gives a name (section
  4.2); the last entry of the list counts, as for assignments made in order. The parser
  is missing from the sources.\<close>

definition override_of :: "(string \<times> scalar) list \<Rightarrow> string \<Rightarrow> scalar option" where
  "override_of recipe_args k = map_of (rev recipe_args) k"

text \<open>Modelled from the spec: the variables after the overrides, stated directly: "a
  flat mapping of variable-name -> value ... that replaces same-named top-level
  variables" (section 4.2), every other variable kept as the recipe has it. This is the
  mapping \<open>load\<close> has to resolve against; the parser is missing from the sources.\<close>

definition overridden :: "variables \<Rightarrow> (string \<times> scalar) list \<Rightarrow> variables" where
  "overridden vars recipe_args =
     map (\<lambda>(k, x). case override_of recipe_args k of
                      None \<Rightarrow> (k, x)
                    | Some c \<Rightarrow> (k, Literal c)) vars"

text \<open>The notebook's recipe with one more variable, defined by a formula over
  \<open>num_epochs\<close> ("formula string referencing other variables", section 3), and a
  modifier that ends there.\<close>

definition derived_recipe :: recipe where
  "derived_recipe =
     \<lparr>variables = variables transfer_recipe @ [(''last_epoch'', Formula (Ref ''num_epochs''))],
      modifiers = modifiers transfer_recipe @
        [\<lparr>type_tag = ''ConstantPruningModifier'', stage = ''constant_modifiers'',
          start_raw = Literal (Num 0), end_raw = Some (Formula (Ref ''last_epoch'')),
          params = [(''params'', Literal (Str ''__ALL_PRUNABLE__''))]\<rparr>]\<rparr>"

subsection \<open>Overrides come before resolution\<close>

lemma overridden_keys: "map fst (overridden vars recipe_args) = map fst vars"
  unfolding overridden_def
proof (induction vars)
  case Nil
  show ?case by simp
next
  case (Cons p vars)
  obtain k x where p: "p = (k, x)" by (cases p)
  from Cons show ?case
    by (cases "override_of recipe_args k") (simp_all add: p)
qed

lemma override_of_Nil: "override_of [] k = None"
  by (simp add: override_of_def)

lemma override_of_Cons:
  "override_of ((k, c) # recipe_args) k' =
     (case override_of recipe_args k' of
        None \<Rightarrow> (if k' = k then Some c else None)
      | Some c' \<Rightarrow> Some c')"
  by (simp add: override_of_def map_add_def split: option.splits)

lemma override_of_distinct:
  assumes "distinct (map fst recipe_args)" and "(k, c) \<in> set recipe_args"
  shows "override_of recipe_args k = Some c"
proof -
  from assms have "distinct (map fst (rev recipe_args))" and "(k, c) \<in> set (rev recipe_args)"
    by (simp_all add: rev_map [symmetric])
  then show ?thesis
    unfolding override_of_def by (rule map_of_is_SomeI)
qed

lemma override_of_None:
  assumes "k \<notin> set (map fst recipe_args)"
  shows "override_of recipe_args k = None"
  using assms by (simp add: override_of_def map_of_eq_None_iff)

lemma map_of_overridden:
  "map_of (overridden vars recipe_args) k =
     (case map_of vars k of
        None \<Rightarrow> None
      | Some x \<Rightarrow> Some (case override_of recipe_args k of None \<Rightarrow> x | Some c \<Rightarrow> Literal c))"
  unfolding overridden_def
proof (induction vars)
  case Nil
  show ?case by simp
next
  case (Cons p vars)
  obtain k' x where p: "p = (k', x)" by (cases p)
  show ?case
  proof (cases "k' = k")
    case True
    then show ?thesis
      by (cases "override_of recipe_args k") (simp_all add: p)
  next
    case False
    with Cons show ?thesis
      by (cases "override_of recipe_args k'") (simp_all add: p)
  qed
qed

lemma overridden_Nil: "overridden vars [] = vars"
  unfolding overridden_def by (induction vars) (auto simp: override_of_Nil)

lemma overridden_step_known:
  "overridden (map (\<lambda>(k', r). if k' = k then (k', Literal c) else (k', r)) vars) recipe_args
     = overridden vars ((k, c) # recipe_args)"
  unfolding overridden_def
proof (induction vars)
  case Nil
  show ?case by simp
next
  case (Cons p vars)
  obtain k' x where p: "p = (k', x)" by (cases p)
  from Cons show ?case
    by (cases "override_of recipe_args k'"; cases "k' = k") (simp_all add: p override_of_Cons)
qed

lemma overridden_cong:
  assumes "\<And>k. k \<in> set (map fst vars) \<Longrightarrow> override_of args1 k = override_of args2 k"
  shows "overridden vars args1 = overridden vars args2"
  unfolding overridden_def
proof (rule map_cong [OF refl])
  fix p assume "p \<in> set vars"
  obtain k x where p: "p = (k, x)" by (cases p)
  with \<open>p \<in> set vars\<close> have "k \<in> set (map fst vars)" by force
  from assms [OF this]
  show "(case p of (k, x) \<Rightarrow> case override_of args1 k of
                 None \<Rightarrow> (k, x) | Some c \<Rightarrow> (k, Literal c)) =
      (case p of (k, x) \<Rightarrow> case override_of args2 k of
                 None \<Rightarrow> (k, x) | Some c \<Rightarrow> (k, Literal c))"
    by (simp add: p)
qed

lemma overridden_step_unknown:
  assumes "k \<notin> set (map fst vars)"
  shows "overridden vars ((k, c) # recipe_args) = overridden vars recipe_args"
proof (rule overridden_cong)
  fix k' assume "k' \<in> set (map fst vars)"
  with assms have "k' \<noteq> k" by auto
  then show "override_of ((k, c) # recipe_args) k' = override_of recipe_args k'"
    by (simp add: override_of_Cons split: option.splits)
qed

lemma apply_overrides_overridden:
  "apply_overrides vars recipe_args =
     (overridden vars recipe_args,
      filter (\<lambda>k. k \<notin> set (map fst vars)) (map fst recipe_args))"
proof (induction vars recipe_args rule: apply_overrides.induct)
  case (1 vars)
  show ?case by (simp add: overridden_Nil)
next
  case (2 vars k c overrides)
  let ?vars = "map (\<lambda>(k', r). if k' = k then (k', Literal c) else (k', r)) vars"
  have keys: "map fst ?vars = map fst vars"
    by (induction vars) auto
  show ?case
  proof (cases "k \<in> set (map fst vars)")
    case True
    from "2.IH"(1) [OF True] have "apply_overrides ?vars overrides =
        (overridden vars ((k, c) # overrides),
         filter (\<lambda>k. k \<notin> set (map fst vars)) (map fst overrides))"
      by (simp only: overridden_step_known keys)
    with True show ?thesis by simp
  next
    case False
    from "2.IH"(2) [OF False] have "apply_overrides vars overrides =
        (overridden vars ((k, c) # overrides),
         filter (\<lambda>k. k \<notin> set (map fst vars)) (map fst overrides))"
      by (simp only: overridden_step_unknown [OF False])
    with False show ?thesis by simp
  qed
qed

lemma overridden_known:
  "overridden vars (filter (\<lambda>(k, c). k \<in> set (map fst vars)) recipe_args)
     = overridden vars recipe_args"
proof (rule overridden_cong)
  fix k assume k: "k \<in> set (map fst vars)"
  show "override_of (filter (\<lambda>(k, c). k \<in> set (map fst vars)) recipe_args) k
      = override_of recipe_args k"
  proof (induction recipe_args)
    case Nil
    show ?case by simp
  next
    case (Cons p recipe_args)
    obtain k' c' where p: "p = (k', c')" by (cases p)
    show ?case
    proof (cases "k' \<in> set (map fst vars)")
      case True
      with Cons show ?thesis by (simp add: p override_of_Cons)
    next
      case False
      with k have "k \<noteq> k'" by auto
      with False Cons show ?thesis
        by (simp add: p override_of_Cons split: option.splits)
    qed
  qed
qed

lemma load_recipe_overridden:
  "load_recipe ops r recipe_args =
     (case resolve_all ops (overridden (variables r) recipe_args) of
        Inl err \<Rightarrow> Inl err
      | Inr env \<Rightarrow>
          (case each (resolve_spec ops (overridden (variables r) recipe_args)) (modifiers r) of
             Inl err \<Rightarrow> Inl err
           | Inr ms \<Rightarrow>
               Inr \<lparr>r_variables = env, r_modifiers = ms,
                    warnings = filter (\<lambda>k. k \<notin> set (map fst (variables r)))
                                 (map fst recipe_args)\<rparr>))"
  by (simp only: load_recipe_def apply_overrides_overridden prod.case)

lemma each_length: "each f xs = Inr ys \<Longrightarrow> length ys = length xs"
  by (induction xs arbitrary: ys) (auto split: sum.splits)

lemma each_nth: "each f xs = Inr ys \<Longrightarrow> i < length xs \<Longrightarrow> f (xs ! i) = Inr (ys ! i)"
proof (induction xs arbitrary: ys i)
  case Nil
  then show ?case by simp
next
  case (Cons x xs)
  then show ?case
    by (cases i) (auto split: sum.splits)
qed

lemma each_pairs:
  assumes "each (\<lambda>k. case g k of Inl err \<Rightarrow> Inl err | Inr c \<Rightarrow> Inr (k, c)) ks = Inr env"
  shows "map_of env k = Some c \<longleftrightarrow> k \<in> set ks \<and> g k = Inr c"
  using assms
proof (induction ks arbitrary: env)
  case Nil
  then show ?case by simp
next
  case (Cons a ks)
  from Cons.prems obtain ca env' where a: "g a = Inr ca"
    and rest: "each (\<lambda>k. case g k of Inl err \<Rightarrow> Inl err | Inr c \<Rightarrow> Inr (k, c)) ks = Inr env'"
    and env: "env = (a, ca) # env'"
    by (auto split: sum.splits)
  show ?case
  proof (cases "k = a")
    case True
    with a env show ?thesis by auto
  next
    case False
    with Cons.IH [OF rest] env show ?thesis by simp
  qed
qed

lemma resolve_all_values:
  assumes "resolve_all ops vars = Inr env"
  shows "map_of env k = Some c \<longleftrightarrow> k \<in> set (map fst vars) \<and> resolve ops vars [] (Ref k) = Inr c"
  using each_pairs [OF assms [unfolded resolve_all_def], of k c] by simp

lemma resolve_spec_end:
  assumes "resolve_spec ops vars m = Inr m'"
  shows "resolve_end ops vars (end_raw m) = Inr (r_end m')"
  using assms by (auto simp: resolve_spec_def split: sum.splits)

lemma resolve_literal_variable:
  assumes "map_of vars x = Some (Literal c)"
  shows "resolve ops vars [] (Ref x) = Inr c"
  using assms by simp

lemma resolve_derived_variable:
  assumes "map_of vars k = Some (Formula (Ref x))" and "map_of vars x = Some (Literal c)"
  shows "resolve ops vars [] (Ref k) = Inr c"
proof -
  from assms have "x \<noteq> k" by auto
  with assms show ?thesis by simp
qed

text \<open>
  C6. \<open>load\<close> applies the overrides to the top-level variables before it resolves
  anything: loading a recipe with overrides is loading the recipe whose same-named
  variables have been replaced, and every value of the result, the variables (also
  those defined by a formula over an overridden one) and the modifiers' values, is the
  resolution against the replaced variables. Override names absent from the recipe
  change nothing but the warnings, which list exactly them: with or without them
  \<open>load\<close> fails with the same error or succeeds with the same values. For a recipe
  that defines \<open>num_epochs\<close> and an override mapping with \<open>num_epochs = 20\<close>, whatever
  the recipe's own value: \<open>eval(num_epochs)\<close> resolves to 20, and whenever \<open>load\<close>
  succeeds the variable \<open>num_epochs\<close> is 20, every variable defined as
  \<open>eval(num_epochs)\<close> (and not itself overridden) is 20, and every modifier whose end is
  \<open>eval(num_epochs)\<close> or such a variable ends at 20.
\<close>

theorem overrides_before_resolution:
  "(let vars = overridden (variables r) recipe_args;
        unknown = filter (\<lambda>k. k \<notin> set (map fst (variables r))) (map fst recipe_args)
    in
      load_recipe ops r recipe_args =
        (case load_recipe ops (r\<lparr>variables := vars\<rparr>) [] of
           Inl err \<Rightarrow> Inl err
         | Inr loaded \<Rightarrow> Inr (loaded\<lparr>warnings := unknown\<rparr>)) \<and>
      load_recipe ops r recipe_args =
        (case load_recipe ops r
                (filter (\<lambda>(k, c). k \<in> set (map fst (variables r))) recipe_args) of
           Inl err \<Rightarrow> Inl err
         | Inr loaded \<Rightarrow> Inr (loaded\<lparr>warnings := unknown\<rparr>)) \<and>
      (\<forall>loaded. load_recipe ops r recipe_args = Inr loaded \<longrightarrow>
         warnings loaded = unknown \<and>
         (\<forall>k c. map_of (r_variables loaded) k = Some c \<longleftrightarrow>
            k \<in> set (map fst (variables r)) \<and> resolve ops vars [] (Ref k) = Inr c) \<and>
         length (r_modifiers loaded) = length (modifiers r) \<and>
         (\<forall>i < length (modifiers r).
            resolve_spec ops vars (modifiers r ! i) = Inr (r_modifiers loaded ! i))) \<and>
      (''num_epochs'' \<in> set (map fst (variables r)) \<and> distinct (map fst recipe_args) \<and>
       (''num_epochs'', Num 20) \<in> set recipe_args \<longrightarrow>
         resolve_end ops vars (Some (Formula (Ref ''num_epochs''))) = Inr (Some (Num 20)) \<and>
         (\<forall>loaded. load_recipe ops r recipe_args = Inr loaded \<longrightarrow>
            map_of (r_variables loaded) ''num_epochs'' = Some (Num 20) \<and>
            (\<forall>k. k \<notin> set (map fst recipe_args) \<and>
                 map_of (variables r) k = Some (Formula (Ref ''num_epochs'')) \<longrightarrow>
                 map_of (r_variables loaded) k = Some (Num 20)) \<and>
            (\<forall>i < length (modifiers r).
               end_raw (modifiers r ! i) = Some (Formula (Ref ''num_epochs'')) \<longrightarrow>
               r_end (r_modifiers loaded ! i) = Some (Num 20)) \<and>
            (\<forall>i < length (modifiers r). \<forall>k.
               end_raw (modifiers r ! i) = Some (Formula (Ref k)) \<and>
               k \<notin> set (map fst recipe_args) \<and>
               map_of (variables r) k = Some (Formula (Ref ''num_epochs'')) \<longrightarrow>
               r_end (r_modifiers loaded ! i) = Some (Num 20)))))"
proof -
  define vars where "vars = overridden (variables r) recipe_args"
  define unknown where
    "unknown = filter (\<lambda>k. k \<notin> set (map fst (variables r))) (map fst recipe_args)"
  let ?known = "filter (\<lambda>(k, c). k \<in> set (map fst (variables r))) recipe_args"
  let ?outcome = "\<lambda>ws. case resolve_all ops vars of
        Inl err \<Rightarrow> Inl err
      | Inr env \<Rightarrow>
          (case each (resolve_spec ops vars) (modifiers r) of
             Inl err \<Rightarrow> Inl err
           | Inr ms \<Rightarrow> Inr \<lparr>r_variables = env, r_modifiers = ms, warnings = ws\<rparr>)"
  have full: "load_recipe ops r recipe_args = ?outcome unknown"
    unfolding vars_def unknown_def by (rule load_recipe_overridden)
  have replaced: "load_recipe ops (r\<lparr>variables := vars\<rparr>) [] = ?outcome []"
    by (simp add: load_recipe_def cong: sum.case_cong)
  have "filter (\<lambda>k. k \<notin> set (map fst (variables r))) (map fst ?known) = []"
    by (auto simp: filter_empty_conv)
  then have known: "load_recipe ops r ?known = ?outcome []"
    using load_recipe_overridden [of ops r ?known]
    by (simp only: overridden_known vars_def)
  have g1: "load_recipe ops r recipe_args =
      (case load_recipe ops (r\<lparr>variables := vars\<rparr>) [] of
         Inl err \<Rightarrow> Inl err
       | Inr loaded \<Rightarrow> Inr (loaded\<lparr>warnings := unknown\<rparr>))"
    unfolding full replaced by (simp split: sum.splits)
  have g2: "load_recipe ops r recipe_args =
      (case load_recipe ops r ?known of
         Inl err \<Rightarrow> Inl err
       | Inr loaded \<Rightarrow> Inr (loaded\<lparr>warnings := unknown\<rparr>))"
    unfolding full known by (simp split: sum.splits)
  have g3: "warnings loaded = unknown \<and>
      (\<forall>k c. map_of (r_variables loaded) k = Some c \<longleftrightarrow>
         k \<in> set (map fst (variables r)) \<and> resolve ops vars [] (Ref k) = Inr c) \<and>
      length (r_modifiers loaded) = length (modifiers r) \<and>
      (\<forall>i < length (modifiers r).
         resolve_spec ops vars (modifiers r ! i) = Inr (r_modifiers loaded ! i))"
    if ok: "load_recipe ops r recipe_args = Inr loaded" for loaded
  proof -
    from ok have env: "resolve_all ops vars = Inr (r_variables loaded)"
      and ms: "each (resolve_spec ops vars) (modifiers r) = Inr (r_modifiers loaded)"
      and w: "warnings loaded = unknown"
      unfolding full by (auto split: sum.splits)
    have keys: "map fst vars = map fst (variables r)"
      unfolding vars_def by (rule overridden_keys)
    from resolve_all_values [OF env] keys
    have "map_of (r_variables loaded) k = Some c \<longleftrightarrow>
        k \<in> set (map fst (variables r)) \<and> resolve ops vars [] (Ref k) = Inr c" for k c
      by simp
    with w each_length [OF ms] each_nth [OF ms] show ?thesis by simp
  qed
  have g4: "resolve_end ops vars (Some (Formula (Ref ''num_epochs''))) = Inr (Some (Num 20)) \<and>
      (\<forall>loaded. load_recipe ops r recipe_args = Inr loaded \<longrightarrow>
         map_of (r_variables loaded) ''num_epochs'' = Some (Num 20) \<and>
         (\<forall>k. k \<notin> set (map fst recipe_args) \<and>
              map_of (variables r) k = Some (Formula (Ref ''num_epochs'')) \<longrightarrow>
              map_of (r_variables loaded) k = Some (Num 20)) \<and>
         (\<forall>i < length (modifiers r).
            end_raw (modifiers r ! i) = Some (Formula (Ref ''num_epochs'')) \<longrightarrow>
            r_end (r_modifiers loaded ! i) = Some (Num 20)) \<and>
         (\<forall>i < length (modifiers r). \<forall>k.
            end_raw (modifiers r ! i) = Some (Formula (Ref k)) \<and>
            k \<notin> set (map fst recipe_args) \<and>
            map_of (variables r) k = Some (Formula (Ref ''num_epochs'')) \<longrightarrow>
            r_end (r_modifiers loaded ! i) = Some (Num 20)))"
    if defined: "''num_epochs'' \<in> set (map fst (variables r))"
      and mapping: "distinct (map fst recipe_args)"
      and set20: "(''num_epochs'', Num 20) \<in> set recipe_args"
  proof -
    from defined obtain x where "map_of (variables r) ''num_epochs'' = Some x"
      by (metis map_of_eq_None_iff not_None_eq set_map)
    with override_of_distinct [OF mapping set20]
    have num: "map_of vars ''num_epochs'' = Some (Literal (Num 20))"
      by (simp add: vars_def map_of_overridden)
    then have res: "resolve ops vars [] (Ref ''num_epochs'') = Inr (Num 20)"
      by (rule resolve_literal_variable)
    have derived: "resolve ops vars [] (Ref k) = Inr (Num 20) \<and> k \<in> set (map fst (variables r))"
      if "k \<notin> set (map fst recipe_args)"
        and "map_of (variables r) k = Some (Formula (Ref ''num_epochs''))" for k
    proof -
      from that override_of_None [of k recipe_args]
      have "map_of vars k = Some (Formula (Ref ''num_epochs''))"
        by (simp add: vars_def map_of_overridden)
      from resolve_derived_variable [OF this num] that(2) show ?thesis
        by (metis map_of_eq_None_iff option.distinct(1) set_map)
    qed
    have end_ref: "r_end (r_modifiers loaded ! i) = Some (Num 20)"
      if ok: "load_recipe ops r recipe_args = Inr loaded" and i: "i < length (modifiers r)"
        and e: "end_raw (modifiers r ! i) = Some (Formula (Ref k))"
        and k: "resolve ops vars [] (Ref k) = Inr (Num 20)" for loaded i k
    proof -
      from g3 [OF ok] i
      have "resolve_spec ops vars (modifiers r ! i) = Inr (r_modifiers loaded ! i)"
        by blast
      then have "resolve_end ops vars (end_raw (modifiers r ! i))
          = Inr (r_end (r_modifiers loaded ! i))"
        by (rule resolve_spec_end)
      with e k show ?thesis
        by (simp add: resolve_end_def resolve_raw_def)
    qed
    have "resolve_end ops vars (Some (Formula (Ref ''num_epochs''))) = Inr (Some (Num 20))"
      using res by (simp add: resolve_end_def resolve_raw_def)
    moreover have "map_of (r_variables loaded) ''num_epochs'' = Some (Num 20)"
      if "load_recipe ops r recipe_args = Inr loaded" for loaded
      using g3 [OF that] defined res by blast
    moreover have "map_of (r_variables loaded) k = Some (Num 20)"
      if "load_recipe ops r recipe_args = Inr loaded" and "k \<notin> set (map fst recipe_args)"
        and "map_of (variables r) k = Some (Formula (Ref ''num_epochs''))" for loaded k
      using g3 [OF that(1)] derived [OF that(2,3)] by blast
    ultimately show ?thesis
      using end_ref res derived by blast
  qed
  from g1 g2 g3 g4 show ?thesis
    unfolding Let_def vars_def [symmetric] unknown_def [symmetric] by blast
qed

theorem overrides_before_resolution_witness:
  "''num_epochs'' \<in> set (map fst (variables derived_recipe)) \<and>
   distinct (map fst [(''num_epochs'', Num 20), (''warmup_epochs'', Num 1)]) \<and>
   (''num_epochs'', Num 20) \<in> set [(''num_epochs'', Num 20), (''warmup_epochs'', Num 1)] \<and>
   ''last_epoch'' \<notin> set (map fst [(''num_epochs'', Num 20), (''warmup_epochs'', Num 1)]) \<and>
   map_of (variables derived_recipe) ''last_epoch'' = Some (Formula (Ref ''num_epochs'')) \<and>
   map_of (variables derived_recipe) ''num_epochs'' = Some (Literal (Num 13)) \<and>
   map_of (r_variables (projr (load_recipe (\<lambda>f u w. Inr u) derived_recipe
       [(''num_epochs'', Num 20), (''warmup_epochs'', Num 1)]))) ''num_epochs'' = Some (Num 20) \<and>
   map_of (r_variables (projr (load_recipe (\<lambda>f u w. Inr u) derived_recipe
       [(''num_epochs'', Num 20), (''warmup_epochs'', Num 1)]))) ''last_epoch'' = Some (Num 20) \<and>
   r_end (r_modifiers (projr (load_recipe (\<lambda>f u w. Inr u) derived_recipe
       [(''num_epochs'', Num 20), (''warmup_epochs'', Num 1)])) ! 0) = Some (Num 20) \<and>
   r_end (r_modifiers (projr (load_recipe (\<lambda>f u w. Inr u) derived_recipe
       [(''num_epochs'', Num 20), (''warmup_epochs'', Num 1)])) ! 2) = Some (Num 20) \<and>
   warnings (projr (load_recipe (\<lambda>f u w. Inr u) derived_recipe
       [(''num_epochs'', Num 20), (''warmup_epochs'', Num 1)])) = [''warmup_epochs''] \<and>
   map r_end (r_modifiers (projr (load_recipe (\<lambda>f u w. Inr u) derived_recipe [])))
     = [Some (Num 13), Some (Num 13), Some (Num 13)]"
proof -
  let ?args = "[(''num_epochs'', Num 20), (''warmup_epochs'', Num 1)]"
  let ?ops = "\<lambda>(f :: binop) (u :: scalar) (w :: scalar). (Inr u :: error + scalar)"
  define loaded where "loaded = projr (load_recipe ?ops derived_recipe ?args)"
  have h1: "''num_epochs'' \<in> set (map fst (variables derived_recipe))"
    by (simp add: derived_recipe_def transfer_recipe_def)
  have h2: "distinct (map fst ?args)" by simp
  have h3: "(''num_epochs'', Num 20) \<in> set ?args" by simp
  have h4: "''last_epoch'' \<notin> set (map fst ?args)" by simp
  have h5: "map_of (variables derived_recipe) ''last_epoch'' = Some (Formula (Ref ''num_epochs''))"
    by (simp add: derived_recipe_def transfer_recipe_def)
  have default: "map_of (variables derived_recipe) ''num_epochs'' = Some (Literal (Num 13))"
    by (simp add: derived_recipe_def transfer_recipe_def)
  have "isl (load_recipe ?ops derived_recipe ?args) = False"
    by code_simp
  then have ok: "load_recipe ?ops derived_recipe ?args = Inr loaded"
    unfolding loaded_def by (cases "load_recipe ?ops derived_recipe ?args") simp_all
  have bare: "map r_end (r_modifiers (projr (load_recipe ?ops derived_recipe [])))
      = [Some (Num 13), Some (Num 13), Some (Num 13)]"
    by code_simp
  have i0: "0 < length (modifiers derived_recipe)"
    and i2: "2 < length (modifiers derived_recipe)"
    and e0: "end_raw (modifiers derived_recipe ! 0) = Some (Formula (Ref ''num_epochs''))"
    and e2: "end_raw (modifiers derived_recipe ! 2) = Some (Formula (Ref ''last_epoch''))"
    by (simp_all add: derived_recipe_def transfer_recipe_def)
  note inst = overrides_before_resolution [of derived_recipe ?args ?ops, unfolded Let_def]
  note general = inst [THEN conjunct2, THEN conjunct2, THEN conjunct1, rule_format, OF ok]
  note special = inst [THEN conjunct2, THEN conjunct2, THEN conjunct2, rule_format,
      OF conjI [OF h1 conjI [OF h2 h3]], THEN conjunct2, rule_format, OF ok]
  from general have w: "warnings loaded
      = filter (\<lambda>k. k \<notin> set (map fst (variables derived_recipe))) (map fst ?args)"
    by (rule conjunct1)
  then have warn: "warnings loaded = [''warmup_epochs'']"
    by (simp add: derived_recipe_def transfer_recipe_def)
  from special have v1: "map_of (r_variables loaded) ''num_epochs'' = Some (Num 20)"
    by (rule conjunct1)
  from special have derived: "\<forall>k. k \<notin> set (map fst ?args) \<and>
      map_of (variables derived_recipe) k = Some (Formula (Ref ''num_epochs'')) \<longrightarrow>
      map_of (r_variables loaded) k = Some (Num 20)"
    by (elim conjE)
  with h4 h5 have v2: "map_of (r_variables loaded) ''last_epoch'' = Some (Num 20)"
    by blast
  from special have direct: "\<forall>i < length (modifiers derived_recipe).
      end_raw (modifiers derived_recipe ! i) = Some (Formula (Ref ''num_epochs'')) \<longrightarrow>
      r_end (r_modifiers loaded ! i) = Some (Num 20)"
    by (elim conjE)
  with i0 e0 have m0: "r_end (r_modifiers loaded ! 0) = Some (Num 20)"
    by blast
  from special have through: "\<forall>i < length (modifiers derived_recipe). \<forall>k.
      end_raw (modifiers derived_recipe ! i) = Some (Formula (Ref k)) \<and>
      k \<notin> set (map fst ?args) \<and>
      map_of (variables derived_recipe) k = Some (Formula (Ref ''num_epochs'')) \<longrightarrow>
      r_end (r_modifiers loaded ! i) = Some (Num 20)"
    by (elim conjE)
  with i2 e2 h4 h5 have m2: "r_end (r_modifiers loaded ! 2) = Some (Num 20)"
    by blast
  from h1 h2 h3 h4 h5 default v1 v2 m0 m2 warn bare show ?thesis
    unfolding loaded_def by (intro conjI)
qed

end
